theory Spec2Isabelle
  imports Main "HOL-Library.Word"
begin

section \<open>MLLP transport of the RevStream services\<close>

text \<open>
  The development embeds \<^verbatim>\<open>RevStream/billing-simulator/server.py\<close> (the receiver)
  and \<^verbatim>\<open>RevStream/hl7-sender/sender.py\<close> (the sender). Python \<^verbatim>\<open>bytes\<close> are lists
  of 8-bit words, Python \<^verbatim>\<open>str\<close> values are lists of Unicode code points, exceptions
  are values of the type \<open>exn\<close>, and everything a function does to the socket, the
  disk or the log is recorded in an explicit trace.
\<close>

subsection \<open>Bytes, text and exceptions\<close>

type_synonym byte = "8 word"
type_synonym bytes = "byte list"
type_synonym str = "nat list"

text \<open>A Python string literal, given by its ASCII characters.\<close>

definition u :: "string \<Rightarrow> str" where
  "u s = map of_char s"

text \<open>
  A raised exception: its class and the text \<^verbatim>\<open>str(e)\<close>. \<open>SocketTimeout\<close> is
  \<^verbatim>\<open>socket.timeout\<close>; the last three classes are raised by the operating system
  through the socket and file calls, the others by the interpreter.
\<close>

datatype exn_class =
    ValueError
  | IndexError
  | UnicodeEncodeError
  | UnicodeDecodeError
  | SocketTimeout
  | ConnectionRefusedError
  | ConnectionResetError
  | OSError

datatype exn = Exn (cls: exn_class) (msg: str)

text \<open>Sequencing of computations that may raise.\<close>

definition bind :: "exn + 'a \<Rightarrow> ('a \<Rightarrow> exn + 'b) \<Rightarrow> exn + 'b" where
  "bind m f = (case m of Inl e \<Rightarrow> Inl e | Inr x \<Rightarrow> f x)"

text \<open>\<^verbatim>\<open>xs[i]\<close> for a non-negative index: IndexError out of range.\<close>

definition item :: "'a list \<Rightarrow> nat \<Rightarrow> exn + 'a" where
  "item xs i =
     (if i < length xs then Inr (xs ! i) else Inl (Exn IndexError (u ''list index out of range'')))"

text \<open>\<^verbatim>\<open>MLLP_START = b'\x0b'\<close> and \<^verbatim>\<open>MLLP_END = b'\x1c\x0d'\<close>.\<close>

definition MLLP_START :: bytes where
  "MLLP_START = [0x0B]"

definition MLLP_END :: bytes where
  "MLLP_END = [0x1C, 0x0D]"

text \<open>\<^verbatim>\<open>s.startswith(pre)\<close>.\<close>

definition startswith :: "'a list \<Rightarrow> 'a list \<Rightarrow> bool" where
  "startswith s pre = (take (length pre) s = pre)"

text \<open>\<^verbatim>\<open>buf.find(sub)\<close>: the lowest index at which \<open>sub\<close> occurs, if any.\<close>

fun find_sub :: "'a list \<Rightarrow> 'a list \<Rightarrow> nat option" where
  "find_sub sub [] = (if sub = [] then Some 0 else None)"
| "find_sub sub (x # xs) =
     (if startswith (x # xs) sub then Some 0 else map_option Suc (find_sub sub xs))"

text \<open>\<^verbatim>\<open>sub in buf\<close>.\<close>

definition contains :: "'a list \<Rightarrow> 'a list \<Rightarrow> bool" where
  "contains sub buf = (find_sub sub buf \<noteq> None)"

text \<open>\<^verbatim>\<open>buf.index(sub)\<close>: as \<open>find\<close>, but raises ValueError when there is no occurrence.\<close>

definition index :: "'a list \<Rightarrow> 'a list \<Rightarrow> exn + nat" where
  "index sub buf =
     (case find_sub sub buf of
        None \<Rightarrow> Inl (Exn ValueError (u ''subsection not found''))
      | Some i \<Rightarrow> Inr i)"

text \<open>\<^verbatim>\<open>buf[a:b]\<close> for non-negative \<open>a\<close> and \<open>b\<close>.\<close>

definition slice :: "nat \<Rightarrow> nat \<Rightarrow> 'a list \<Rightarrow> 'a list" where
  "slice a b buf = drop a (take b buf)"

text \<open>\<^verbatim>\<open>buf.replace(sub, b'')\<close>: every occurrence of \<open>sub\<close>, found left to right, is removed.\<close>

fun remove_all :: "'a list \<Rightarrow> 'a list \<Rightarrow> 'a list" where
  "remove_all sub [] = []"
| "remove_all sub (x # xs) =
     (if sub \<noteq> [] \<and> startswith (x # xs) sub then remove_all sub (drop (length sub - 1) xs)
      else x # remove_all sub xs)"

text \<open>\<^verbatim>\<open>s.split(sep)\<close> for a separator of one character: never an empty list.\<close>

fun split_on :: "'a \<Rightarrow> 'a list \<Rightarrow> 'a list list" where
  "split_on sep [] = [[]]"
| "split_on sep (c # cs) =
     (if c = sep then [] # split_on sep cs
      else (case split_on sep cs of [] \<Rightarrow> [[c]] | w # ws \<Rightarrow> (c # w) # ws))"

subsection \<open>Framing\<close>

text \<open>
  The sender wraps the encoded message (\<^verbatim>\<open>sender.py\<close>, line 32):
  \<^verbatim>\<open>mllp_message = MLLP_START + message.encode() + MLLP_END\<close>.
\<close>

definition encode :: "bytes \<Rightarrow> bytes" where
  "encode p = MLLP_START @ p @ MLLP_END"

text \<open>
  One pass of the receiver's inner loop (\<^verbatim>\<open>server.py\<close>, lines 115 to 120):
  \<^verbatim>\<open>
  start_idx = buffer.index(MLLP_START)
  end_idx = buffer.index(MLLP_END) + len(MLLP_END)
  mllp_message = buffer[start_idx:end_idx]
  buffer = buffer[end_idx:]
  \<close>
  The result is the pair of \<open>mllp_message\<close> and the new buffer.
\<close>

definition next_frame :: "bytes \<Rightarrow> exn + (bytes \<times> bytes)" where
  "next_frame buffer =
     (case index MLLP_START buffer of
        Inl e \<Rightarrow> Inl e
      | Inr start_idx \<Rightarrow>
          (case index MLLP_END buffer of
             Inl e \<Rightarrow> Inl e
           | Inr i \<Rightarrow>
               (let end_idx = i + length MLLP_END
                in Inr (slice start_idx end_idx buffer, drop end_idx buffer))))"

text \<open>\<^verbatim>\<open>mllp_message[1:-2]\<close> (line 123): the slice is empty when fewer than four bytes are given.\<close>

definition strip_framing :: "bytes \<Rightarrow> bytes" where
  "strip_framing mllp_message = slice 1 (length mllp_message - 2) mllp_message"

text \<open>
  The loop of lines 114 to 123 with its effects left out: the raw payloads it extracts
  from a buffer, in order, and the buffer it leaves. The loop itself, with storage and
  acknowledgment, is \<open>drain\<close> below; \<open>drain_follows_decode_all\<close> relates the two.
\<close>

function decode_all :: "bytes \<Rightarrow> exn + (bytes list \<times> bytes)" where
  "decode_all buffer =
     (if contains MLLP_START buffer \<and> contains MLLP_END buffer then
        (case next_frame buffer of
           Inl e \<Rightarrow> Inl e
         | Inr (mllp_message, rest) \<Rightarrow>
             (case decode_all rest of
                Inl e \<Rightarrow> Inl e
              | Inr (ps, remaining) \<Rightarrow> Inr (strip_framing mllp_message # ps, remaining)))
      else Inr ([], buffer))"
  by pat_completeness auto
termination
proof (relation "measure length", goal_cases)
  case 1
  show ?case by simp
next
  case (2 buffer x mllp_message rest)
  from 2(1) have "buffer \<noteq> []"
    by (auto simp: contains_def MLLP_START_def)
  moreover from 2(2,3) obtain i where "rest = drop (i + 2) buffer"
    by (auto simp: next_frame_def MLLP_END_def split: sum.splits)
  ultimately show ?case
    by (cases buffer) auto
qed

declare decode_all.simps [simp del]

text \<open>
  One read of the receiver (lines 111 to 123): the data is appended to the buffer, which
  is then drained.
\<close>

definition feed :: "bytes \<Rightarrow> bytes \<Rightarrow> exn + (bytes list \<times> bytes)" where
  "feed buffer data = decode_all (buffer @ data)"

subsection \<open>UTF-8\<close>

text \<open>
  \<^verbatim>\<open>s.encode()\<close>: UTF-8, strict. A surrogate code point, which a Python string may
  hold, raises UnicodeEncodeError; so does a number that is no code point at all.
\<close>

definition encode_cp :: "nat \<Rightarrow> exn + bytes" where
  "encode_cp c =
     (if c < 0x80 then Inr [of_nat c]
      else if c < 0x800 then Inr [of_nat (0xC0 + c div 64), of_nat (0x80 + c mod 64)]
      else if c < 0x10000 then
        (if 0xD800 \<le> c \<and> c \<le> 0xDFFF
         then Inl (Exn UnicodeEncodeError (u ''surrogates not allowed''))
         else Inr [of_nat (0xE0 + c div 4096), of_nat (0x80 + c div 64 mod 64),
                   of_nat (0x80 + c mod 64)])
      else if c < 0x110000 then
        Inr [of_nat (0xF0 + c div 262144), of_nat (0x80 + c div 4096 mod 64),
             of_nat (0x80 + c div 64 mod 64), of_nat (0x80 + c mod 64)]
      else Inl (Exn UnicodeEncodeError (u ''code point not in range(0x110000)'')))"

text \<open>The code points that can be encoded: all but the surrogates.\<close>

definition scalar :: "nat \<Rightarrow> bool" where
  "scalar c = (c < 0xD800 \<or> (0xDFFF < c \<and> c < 0x110000))"

fun str_encode :: "str \<Rightarrow> exn + bytes" where
  "str_encode [] = Inr []"
| "str_encode (c # cs) =
     (case encode_cp c of
        Inl e \<Rightarrow> Inl e
      | Inr b \<Rightarrow> (case str_encode cs of Inl e \<Rightarrow> Inl e | Inr bs \<Rightarrow> Inr (b @ bs)))"

text \<open>
  \<^verbatim>\<open>b.decode('utf-8', errors=...)\<close>. The decoder reads one sequence at a time. A lead
  byte announces how many continuation bytes follow; the second byte of a sequence has a
  range that depends on the lead byte (no overlong forms, no surrogates, nothing above
  U+10FFFF), the later ones are in 0x80 to 0xBF. A sequence that breaks off is malformed
  up to, and not including, the first byte that does not continue it; a byte that cannot
  start a sequence is malformed by itself.
\<close>

definition is_cont :: "byte \<Rightarrow> bool" where
  "is_cont b = (0x80 \<le> b \<and> b \<le> 0xBF)"

definition seq_need :: "byte \<Rightarrow> nat option" where
  "seq_need b0 =
     (if b0 < 0x80 then Some 0
      else if 0xC2 \<le> b0 \<and> b0 \<le> 0xDF then Some 1
      else if 0xE0 \<le> b0 \<and> b0 \<le> 0xEF then Some 2
      else if 0xF0 \<le> b0 \<and> b0 \<le> 0xF4 then Some 3
      else None)"

definition second_ok :: "byte \<Rightarrow> byte \<Rightarrow> bool" where
  "second_ok b0 b =
     (if b0 = 0xE0 then 0xA0 \<le> b \<and> b \<le> 0xBF
      else if b0 = 0xED then 0x80 \<le> b \<and> b \<le> 0x9F
      else if b0 = 0xF0 then 0x90 \<le> b \<and> b \<le> 0xBF
      else if b0 = 0xF4 then 0x80 \<le> b \<and> b \<le> 0x8F
      else is_cont b)"

text \<open>The tests that the continuation bytes of a sequence have to pass, in order.\<close>

definition expected :: "byte \<Rightarrow> nat \<Rightarrow> (byte \<Rightarrow> bool) list" where
  "expected b0 need = (if need = 0 then [] else second_ok b0 # replicate (need - 1) is_cont)"

text \<open>How many of the bytes at hand pass their tests, up to the first that does not.\<close>

fun cont_run :: "(byte \<Rightarrow> bool) list \<Rightarrow> bytes \<Rightarrow> nat" where
  "cont_run (t # ts) (b # bs) = (if t b then Suc (cont_run ts bs) else 0)"
| "cont_run _ _ = 0"

text \<open>The code point of a complete sequence: the payload bits of the lead byte, then six bits of each continuation byte.\<close>

definition lead_bits :: "byte \<Rightarrow> nat \<Rightarrow> nat" where
  "lead_bits b0 need =
     (if need = 0 then unat b0
      else if need = 1 then unat b0 - 0xC0
      else if need = 2 then unat b0 - 0xE0
      else unat b0 - 0xF0)"

definition assemble :: "byte \<Rightarrow> nat \<Rightarrow> bytes \<Rightarrow> nat" where
  "assemble b0 need conts = foldl (\<lambda>acc b. acc * 64 + (unat b - 0x80)) (lead_bits b0 need) conts"

text \<open>The decoded sequences of a byte string: a code point, or \<open>None\<close> for a malformed one.\<close>

function utf8_scan :: "bytes \<Rightarrow> nat option list" where
  "utf8_scan [] = []"
| "utf8_scan (b0 # bs) =
     (case seq_need b0 of
        None \<Rightarrow> None # utf8_scan bs
      | Some need \<Rightarrow>
          (let k = cont_run (expected b0 need) bs
           in (if k = need then Some (assemble b0 need (take k bs)) else None)
              # utf8_scan (drop k bs)))"
  by pat_completeness auto
termination
  by (relation "measure length") auto

declare utf8_scan.simps [simp del]

datatype errors = Strict | Replace

text \<open>With \<^verbatim>\<open>errors='replace'\<close> a malformed sequence becomes U+FFFD.\<close>

definition replacement :: "nat option \<Rightarrow> nat" where
  "replacement c = (case c of None \<Rightarrow> 0xFFFD | Some v \<Rightarrow> v)"

definition bytes_decode :: "errors \<Rightarrow> bytes \<Rightarrow> exn + str" where
  "bytes_decode mode b =
     (let cps = utf8_scan b
      in case mode of
           Replace \<Rightarrow> Inr (map replacement cps)
         | Strict \<Rightarrow>
             (if None \<in> set cps
              then Inl (Exn UnicodeDecodeError (u ''invalid utf-8''))
              else Inr (map the cps)))"

subsection \<open>Acknowledgments\<close>

text \<open>The five values that \<^verbatim>\<open>create_ack\<close> reads from the header (lines 37 to 47).\<close>

record control =
  sending_app :: str
  sending_facility :: str
  receiving_app :: str
  receiving_facility :: str
  msg_control_id :: str

text \<open>
  Lines 31 to 47 of \<^verbatim>\<open>create_ack\<close>: the first line of the message, split at the
  pipes; with at least ten fields the values are read by position, otherwise they are
  the defaults.
\<close>

definition control_fields :: "str \<Rightarrow> exn + control" where
  "control_fields message =
     (let lines = split_on 0x0D message;
          msh = (case lines of [] \<Rightarrow> [] | l # _ \<Rightarrow> l);
          fields = split_on 0x7C msh
      in if length fields \<ge> 10 then
           bind (item fields 2) (\<lambda>a.
           bind (item fields 3) (\<lambda>b.
           bind (item fields 4) (\<lambda>c.
           bind (item fields 5) (\<lambda>d.
           bind (item fields 9) (\<lambda>m.
             Inr \<lparr>sending_app = a, sending_facility = b, receiving_app = c,
                  receiving_facility = d, msg_control_id = m\<rparr>)))))
         else
           Inr \<lparr>sending_app = u ''UNKNOWN'', sending_facility = u ''UNKNOWN'',
                receiving_app = u ''BILLING'', receiving_facility = u ''HOSPITAL'',
                msg_control_id = u ''0''\<rparr>)"

text \<open>The clock: \<^verbatim>\<open>datetime.datetime.now()\<close>.\<close>

record datetime =
  year :: nat
  month :: nat
  day :: nat
  hour :: nat
  minute :: nat
  second :: nat

definition digit :: "nat \<Rightarrow> nat" where
  "digit n = 0x30 + n mod 10"

definition zfill2 :: "nat \<Rightarrow> str" where
  "zfill2 n = [digit (n div 10), digit n]"

definition zfill4 :: "nat \<Rightarrow> str" where
  "zfill4 n = [digit (n div 1000), digit (n div 100), digit (n div 10), digit n]"

text \<open>\<^verbatim>\<open>now.strftime("%Y%m%d%H%M%S")\<close>, for a year of four digits.\<close>

definition strftime :: "datetime \<Rightarrow> str" where
  "strftime now =
     zfill4 (year now) @ zfill2 (month now) @ zfill2 (day now) @
     zfill2 (hour now) @ zfill2 (minute now) @ zfill2 (second now)"

text \<open>The two lines of the acknowledgment (lines 51 to 55); \<open>0x5C\<close> is the backslash, \<open>0x0D\<close> the carriage return.\<close>

definition ack_header :: "str \<Rightarrow> control \<Rightarrow> str" where
  "ack_header timestamp c =
     u ''MSH|^~'' @ [0x5C] @ u ''&|'' @ receiving_app c @ u ''|'' @ receiving_facility c @
     u ''|'' @ sending_app c @ u ''|'' @ sending_facility c @ u ''|'' @
     timestamp @ u ''||ACK^P03|'' @ msg_control_id c @ u ''|P|2.5''"

definition ack_status :: "control \<Rightarrow> str" where
  "ack_status c = u ''MSA|AA|'' @ msg_control_id c @ u ''|Message received successfully''"

definition ack_text :: "str \<Rightarrow> control \<Rightarrow> str" where
  "ack_text timestamp c = ack_header timestamp c @ [0x0D] @ ack_status c @ [0x0D]"

text \<open>\<^verbatim>\<open>create_ack\<close>, with the time that the clock shows as an argument.\<close>

definition create_ack :: "datetime \<Rightarrow> str \<Rightarrow> exn + bytes" where
  "create_ack now message =
     bind (control_fields message) (\<lambda>c.
     bind (str_encode (ack_text (strftime now) c)) (\<lambda>ack.
       Inr (MLLP_START @ ack @ MLLP_END)))"

subsection \<open>Message information\<close>

record message_info =
  message_type :: str
  patient_id :: str
  codes :: "str list"

text \<open>The body of the loop of \<^verbatim>\<open>extract_message_info\<close> (lines 82 to 94), for one line.\<close>

definition info_line :: "message_info \<Rightarrow> str \<Rightarrow> exn + message_info" where
  "info_line info line =
     (if startswith line (u ''MSH|'') then
        (let fields = split_on 0x7C line
         in if length fields > 8
            then bind (item fields 8) (\<lambda>v. Inr (info\<lparr>message_type := v\<rparr>))
            else Inr info)
      else if startswith line (u ''PID|'') then
        (let fields = split_on 0x7C line
         in if length fields > 3
            then bind (item fields 3) (\<lambda>v. Inr (info\<lparr>patient_id := v\<rparr>))
            else Inr info)
      else if startswith line (u ''FT1|'') then
        (let fields = split_on 0x7C line
         in if length fields > 25
            then bind (if length fields > 24 then item fields 24 else Inr (u ''N/A''))
                   (\<lambda>v. Inr (info\<lparr>codes := codes info @ [v]\<rparr>))
            else Inr info)
      else Inr info)"

fun info_lines :: "str list \<Rightarrow> message_info \<Rightarrow> exn + message_info" where
  "info_lines [] info = Inr info"
| "info_lines (line # lines) info =
     (case info_line info line of Inl e \<Rightarrow> Inl e | Inr info' \<Rightarrow> info_lines lines info')"

definition extract_message_info :: "str \<Rightarrow> exn + message_info" where
  "extract_message_info message =
     info_lines (split_on 0x0D message)
       \<lparr>message_type = u ''Unknown'', patient_id = u ''Unknown'', codes = []\<rparr>"

subsection \<open>The receiver\<close>

text \<open>
  What the receiver does that can be seen from outside, in order: the information it
  logs for a message (lines 130 to 133), the text it stores (\<^verbatim>\<open>save_message\<close>), the
  bytes it writes to the socket, the error it logs (line 145), the closing of the
  connection (line 147).
\<close>

datatype event =
    Received message_info
  | Saved str
  | Sent bytes
  | ErrorLogged exn
  | Closed

text \<open>
  What the surroundings answer to the \<open>k\<close>-th message of a connection: whether writing
  the file fails, what the clock shows when the acknowledgment is built, whether
  writing to the socket fails.
\<close>

record env =
  disk_write :: "nat \<Rightarrow> str \<Rightarrow> exn option"
  clock :: "nat \<Rightarrow> datetime"
  socket_send :: "nat \<Rightarrow> bytes \<Rightarrow> exn option"

text \<open>The connection: the buffer, the number of messages acknowledged, the trace so far.\<close>

record session =
  buffer :: bytes
  handled :: nat
  trace :: "event list"

text \<open>\<^verbatim>\<open>save_message\<close>: opening or writing the file may raise.\<close>

definition save_message :: "env \<Rightarrow> nat \<Rightarrow> str \<Rightarrow> exn + unit" where
  "save_message world k message =
     (case disk_write world k message of Some e \<Rightarrow> Inl e | None \<Rightarrow> Inr ())"

text \<open>\<^verbatim>\<open>conn.send(ack)\<close>.\<close>

definition conn_send :: "env \<Rightarrow> nat \<Rightarrow> bytes \<Rightarrow> exn + unit" where
  "conn_send world k ack =
     (case socket_send world k ack of Some e \<Rightarrow> Inl e | None \<Rightarrow> Inr ())"

definition log :: "event \<Rightarrow> session \<Rightarrow> session" where
  "log ev s = s\<lparr>trace := trace s @ [ev]\<rparr>"

text \<open>
  Lines 123 to 142, the body of the inner loop after the frame is cut out: decode,
  log, store, acknowledge. The result is the exception raised, if any, and the session
  at that moment.
\<close>

definition process_frame :: "env \<Rightarrow> bytes \<Rightarrow> session \<Rightarrow> exn option \<times> session" where
  "process_frame world mllp_message s =
     (case bytes_decode Replace (strip_framing mllp_message) of
        Inl e \<Rightarrow> (Some e, s)
      | Inr hl7_message \<Rightarrow>
          (case extract_message_info hl7_message of
             Inl e \<Rightarrow> (Some e, s)
           | Inr info \<Rightarrow>
               (let s1 = log (Received info) s
                in case save_message world (handled s) hl7_message of
                     Inl e \<Rightarrow> (Some e, s1)
                   | Inr _ \<Rightarrow>
                       (let s2 = log (Saved hl7_message) s1
                        in case create_ack (clock world (handled s)) hl7_message of
                             Inl e \<Rightarrow> (Some e, s2)
                           | Inr ack \<Rightarrow>
                               (case conn_send world (handled s) ack of
                                  Inl e \<Rightarrow> (Some e, s2)
                                | Inr _ \<Rightarrow>
                                    (None, (log (Sent ack) s2)\<lparr>handled := handled s + 1\<rparr>))))))"

text \<open>The inner loop, lines 114 to 142.\<close>

function drain :: "env \<Rightarrow> session \<Rightarrow> exn option \<times> session" where
  "drain world s =
     (if contains MLLP_START (buffer s) \<and> contains MLLP_END (buffer s) then
        (case next_frame (buffer s) of
           Inl e \<Rightarrow> (Some e, s)
         | Inr (mllp_message, rest) \<Rightarrow>
             (case process_frame world mllp_message (s\<lparr>buffer := rest\<rparr>) of
                (Some e, s') \<Rightarrow> (Some e, s')
              | (None, s') \<Rightarrow> drain world s'))
      else (None, s))"
  by pat_completeness auto
termination
proof (relation "measure (\<lambda>(world, s). length (buffer s))", goal_cases)
  case 1
  show ?case by simp
next
  case (2 world s x mllp_message rest r s')
  from 2(1) have "buffer s \<noteq> []"
    by (auto simp: contains_def MLLP_START_def)
  moreover from 2(2,3) obtain i where "rest = drop (i + 2) (buffer s)"
    by (auto simp: next_frame_def MLLP_END_def split: sum.splits)
  moreover from 2(4) have "buffer s' = rest"
    by (auto simp: process_frame_def log_def Let_def split: sum.splits)
  ultimately show ?case
    by (cases "buffer s") auto
qed

declare drain.simps [simp del]

text \<open>
  What a call of \<^verbatim>\<open>conn.recv(4096)\<close> gives: data (no bytes when the peer has closed
  the connection) or an exception.
\<close>

datatype recv_result = Data bytes | RecvRaises exn

datatype ending = Waiting | PeerClosed | Raised exn

text \<open>
  The outer loop, lines 106 to 142, over the results of the successive reads. When the
  list ends the receiver is waiting in \<^verbatim>\<open>recv\<close>.
\<close>

fun recv_loop :: "env \<Rightarrow> recv_result list \<Rightarrow> session \<Rightarrow> ending \<times> session" where
  "recv_loop world [] s = (Waiting, s)"
| "recv_loop world (RecvRaises e # reads) s = (Raised e, s)"
| "recv_loop world (Data data # reads) s =
     (if data = [] then (PeerClosed, s)
      else (case drain world (s\<lparr>buffer := buffer s @ data\<rparr>) of
              (Some e, s') \<Rightarrow> (Raised e, s')
            | (None, s') \<Rightarrow> recv_loop world reads s'))"

text \<open>The handler of lines 144 and 145 and the \<^verbatim>\<open>finally\<close> clause of lines 146 to 148.\<close>

definition finish :: "ending \<times> session \<Rightarrow> ending \<times> session" where
  "finish r =
     (case r of
        (Waiting, s) \<Rightarrow> (Waiting, s)
      | (PeerClosed, s) \<Rightarrow> (PeerClosed, log Closed s)
      | (Raised e, s) \<Rightarrow> (Raised e, log Closed (log (ErrorLogged e) s)))"

text \<open>\<^verbatim>\<open>handle_client\<close>, from the empty buffer.\<close>

definition handle_client :: "env \<Rightarrow> recv_result list \<Rightarrow> ending \<times> session" where
  "handle_client world reads =
     finish (recv_loop world reads \<lparr>buffer = [], handled = 0, trace = []\<rparr>)"

text \<open>The texts stored in the course of a trace, in order.\<close>

fun stored :: "event list \<Rightarrow> str list" where
  "stored [] = []"
| "stored (Saved m # evs) = m # stored evs"
| "stored (ev # evs) = stored evs"

subsection \<open>The sender\<close>

text \<open>
  The peer of the sender: whether \<^verbatim>\<open>sock.connect\<close> and \<^verbatim>\<open>sock.send\<close> raise, and what
  the successive calls of \<^verbatim>\<open>sock.recv(4096)\<close> give. The socket has a timeout of 30
  seconds, so a peer that sends nothing more makes \<^verbatim>\<open>recv\<close> raise \<^verbatim>\<open>socket.timeout\<close>:
  this is what the end of the list stands for.
\<close>

record peer =
  connect_result :: "exn option"
  send_result :: "exn option"
  recv_results :: "recv_result list"

datatype sock_op = Connect | Send bytes | Recv | Close

text \<open>The loop of lines 46 to 52, with the number of calls of \<^verbatim>\<open>recv\<close> it makes.\<close>

fun recv_response :: "recv_result list \<Rightarrow> bytes \<Rightarrow> nat \<times> (exn + bytes)" where
  "recv_response [] response = (1, Inl (Exn SocketTimeout (u ''timed out'')))"
| "recv_response (RecvRaises e # reads) response = (1, Inl e)"
| "recv_response (Data data # reads) response =
     (if data = [] then (1, Inr response)
      else if contains MLLP_END (response @ data) then (1, Inr (response @ data))
      else (case recv_response reads (response @ data) of (n, r) \<Rightarrow> (Suc n, r)))"

text \<open>The three \<^verbatim>\<open>except\<close> clauses of lines 61 to 66, tried in this order.\<close>

definition handler :: "exn \<Rightarrow> str" where
  "handler e =
     (if cls e = SocketTimeout then u ''Connection timed out''
      else if cls e = ConnectionRefusedError then u ''Connection refused - is the server running?''
      else u ''Error: '' @ msg e)"

text \<open>
  \<^verbatim>\<open>send_hl7_message\<close>: the socket operations it performs and its outcome, a returned
  string or an exception that reaches the caller. The message is encoded before the
  \<^verbatim>\<open>try\<close> block is entered (line 32).
\<close>

definition send_hl7_message :: "peer \<Rightarrow> str \<Rightarrow> sock_op list \<times> (exn + str)" where
  "send_hl7_message p message =
     (case str_encode message of
        Inl e \<Rightarrow> ([], Inl e)
      | Inr payload \<Rightarrow>
          (let mllp_message = MLLP_START @ payload @ MLLP_END
           in case connect_result p of
                Some e \<Rightarrow> ([Connect, Close], Inr (handler e))
              | None \<Rightarrow>
                  (case send_result p of
                     Some e \<Rightarrow> ([Connect, Send mllp_message, Close], Inr (handler e))
                   | None \<Rightarrow>
                       (case recv_response (recv_results p) [] of
                          (n, r) \<Rightarrow>
                            ([Connect, Send mllp_message] @ replicate n Recv @ [Close],
                             (case r of
                                Inl e \<Rightarrow> Inr (handler e)
                              | Inr response \<Rightarrow>
                                  (if response \<noteq> [] then
                                     bytes_decode Replace
                                       (remove_all MLLP_END (remove_all MLLP_START response))
                                   else Inr (u ''No response received''))))))))"

subsection \<open>An example message\<close>

text \<open>
  A header as \<^verbatim>\<open>create_default_mdm_message\<close> of the sender builds it, with a fixed time:
  \<^verbatim>\<open>MSH|^~\&|EHR|HOSP|REV|INT|20240101000000||MDM^T02|MSG001|P|2.5\<close> and a carriage return.
\<close>

definition sample_message :: str where
  "sample_message =
     u ''MSH|^~'' @ [0x5C] @ u ''&|EHR|HOSP|REV|INT|20240101000000||MDM^T02|MSG001|P|2.5'' @ [0x0D]"

text \<open>
  Surroundings for the examples: a clock, a receiver whose disk and socket never fail, and
  one whose disk is full.
\<close>

definition example_clock :: "nat \<Rightarrow> datetime" where
  "example_clock k = \<lparr>year = 2024, month = 1, day = 2, hour = 3, minute = 4, second = k\<rparr>"

definition quiet_world :: env where
  "quiet_world =
     \<lparr>disk_write = (\<lambda>k m. None), clock = example_clock, socket_send = (\<lambda>k b. None)\<rparr>"



definition broken_pipe_at :: "nat \<Rightarrow> env" where
  "broken_pipe_at n =
     \<lparr>disk_write = (\<lambda>k m. None), clock = example_clock,
      socket_send =
        (\<lambda>k b. if k = n then Some (Exn OSError (u ''[Errno 32] Broken pipe'')) else None)\<rparr>"

text \<open>
  A second message, with another control ID, and the bytes of a text of ASCII characters,
  which are its encoding.
\<close>

definition second_message :: str where
  "second_message =
     u ''MSH|^~'' @ [0x5C] @ u ''&|LAB|HOSP|REV|INT|20240101000001||MDM^T02|MSG002|P|2.5'' @ [0x0D]"

definition ascii :: "str \<Rightarrow> bytes" where
  "ascii s = map of_nat s"

section \<open>Properties\<close>

subsection \<open>Searching and framing\<close>

lemma find_sub_bound: "find_sub sub xs = Some i \<Longrightarrow> i + length sub \<le> length xs"
proof (induction xs arbitrary: i)
  case Nil then show ?case by (simp split: if_splits)
next
  case (Cons x xs)
  show ?case
  proof (cases "startswith (x # xs) sub")
    case True
    then have "length (take (length sub) (x # xs)) = length sub"
      unfolding startswith_def by (rule arg_cong)
    then have "length sub \<le> length (x # xs)"
      by simp
    with True Cons.prems show ?thesis by simp
  next
    case False
    with Cons.prems obtain j where "find_sub sub xs = Some j" "i = Suc j" by auto
    with Cons.IH show ?thesis by fastforce
  qed
qed

lemma startswith_append: "startswith xs sub \<Longrightarrow> startswith (xs @ ys) sub"
  unfolding startswith_def
  by (metis append_eq_conv_conj append.assoc append_take_drop_id)

lemma find_sub_append: "find_sub sub xs = Some i \<Longrightarrow> find_sub sub (xs @ ys) = Some i"
proof (induction xs arbitrary: i)
  case Nil then show ?case by (cases ys) (auto simp: startswith_def split: if_splits)
next
  case (Cons x xs)
  show ?case
  proof (cases "startswith (x # xs) sub")
    case True
    with Cons.prems startswith_append[OF True, of ys] show ?thesis by simp
  next
    case False
    with Cons.prems obtain j where j: "find_sub sub xs = Some j" "i = Suc j" by auto
    from find_sub_bound[OF j(1)] have "length sub \<le> length (x # xs)" by simp
    then have "take (length sub) ((x # xs) @ ys) = take (length sub) (x # xs)"
      by (simp only: take_append) simp
    with False have "\<not> startswith ((x # xs) @ ys) sub"
      unfolding startswith_def by simp
    with j Cons.IH show ?thesis by simp
  qed
qed

lemma find_end_after:
  "\<not> contains MLLP_END p \<Longrightarrow> find_sub MLLP_END (p @ MLLP_END @ rest) = Some (length p)"
proof (induction p)
  case Nil then show ?case by (simp add: MLLP_END_def startswith_def)
next
  case (Cons x xs)
  from Cons.prems have a: "\<not> startswith (x # xs) MLLP_END" and b: "\<not> contains MLLP_END xs"
    by (auto simp: contains_def split: if_splits)
  from a have "\<not> startswith ((x # xs) @ MLLP_END @ rest) MLLP_END"
    by (cases xs) (auto simp: startswith_def MLLP_END_def)
  with Cons.IH[OF b] show ?case by simp
qed

lemma next_frame_encode:
  assumes "\<not> contains MLLP_END p"
  shows "next_frame (encode p @ rest) = Inr (encode p, rest)"
proof -
  have s: "find_sub MLLP_START (encode p @ rest) = Some 0"
    by (simp add: encode_def MLLP_START_def startswith_def)
  have "\<not> startswith (encode p @ rest) MLLP_END"
    by (simp add: encode_def MLLP_START_def MLLP_END_def startswith_def)
  then have e: "find_sub MLLP_END (encode p @ rest) = Some (Suc (length p))"
    using find_end_after[OF assms, of rest] by (simp add: encode_def MLLP_START_def)
  show ?thesis
    by (simp add: next_frame_def index_def s e slice_def) (simp add: encode_def MLLP_START_def MLLP_END_def)
qed

lemma strip_framing_encode: "strip_framing (encode p) = p"
  by (simp add: strip_framing_def encode_def slice_def MLLP_START_def MLLP_END_def)

lemma decode_all_frame:
  assumes "\<not> contains MLLP_END p"
  shows "decode_all (encode p @ rest) =
    (case decode_all rest of Inl e \<Rightarrow> Inl e | Inr (ps, r) \<Rightarrow> Inr (p # ps, r))"
proof -
  have s: "contains MLLP_START (encode p @ rest)"
    by (simp add: contains_def encode_def MLLP_START_def startswith_def)
  have "find_sub MLLP_END (encode p @ rest) \<noteq> None"
    using find_end_after[OF assms, of rest] by (simp add: encode_def MLLP_START_def)
  then have e: "contains MLLP_END (encode p @ rest)" by (simp add: contains_def)
  show ?thesis
    by (subst decode_all.simps)
       (simp add: s e next_frame_encode[OF assms] strip_framing_encode split: sum.splits)
qed

lemma decode_all_idle: "\<not> contains MLLP_END buf \<Longrightarrow> decode_all buf = Inr ([], buf)"
  by (subst decode_all.simps) simp

lemma decode_all_Nil: "decode_all [] = Inr ([], [])"
  by (rule decode_all_idle) (simp add: contains_def MLLP_END_def)

lemma no_end_prefix:
  assumes "\<not> contains MLLP_END p" "c1 @ c2 = encode p" "c2 \<noteq> []"
  shows "\<not> contains MLLP_END c1"
proof
  assume "contains MLLP_END c1"
  then obtain i where i: "find_sub MLLP_END c1 = Some i" by (auto simp: contains_def)
  from find_sub_append[OF i, of c2] assms(2) have "find_sub MLLP_END (encode p) = Some i" by simp
  moreover have "find_sub MLLP_END (encode p) = Some (Suc (length p))"
    using find_end_after[OF assms(1), of "[]"] by (simp add: encode_def MLLP_START_def startswith_def MLLP_END_def)
  ultimately have "i = Suc (length p)" by simp
  with find_sub_bound[OF i] have "length (encode p) \<le> length c1"
    by (simp add: encode_def MLLP_START_def MLLP_END_def)
  moreover from assms(2) have "length c1 + length c2 = length (encode p)"
    by (metis length_append)
  moreover from assms(3) have "0 < length c2" by simp
  ultimately show False by linarith
qed

lemma no_end_snoc:
  assumes "\<not> contains MLLP_END b" shows "\<not> contains MLLP_END (b @ [0x1C])"
  using assms
proof (induction b)
  case Nil then show ?case by (simp add: contains_def MLLP_END_def startswith_def)
next
  case (Cons x xs)
  from Cons.prems have a: "\<not> startswith (x # xs) MLLP_END" and b: "\<not> contains MLLP_END xs"
    by (auto simp: contains_def split: if_splits)
  from a have "\<not> startswith ((x # xs) @ [0x1C]) MLLP_END"
    by (cases xs) (auto simp: startswith_def MLLP_END_def)
  with Cons.IH[OF b] show ?case by (simp add: contains_def)
qed

text \<open>
  C3. Split reads. When the frame of a payload without marker bytes arrives in two
  non-empty reads, the first read yields no payload and leaves its bytes in the buffer,
  and the second read yields exactly the payload and an empty buffer. The end marker is
  atomic: a buffer without the two-byte end marker that receives a lone byte 0x1C yields
  no payload and is kept whole.
\<close>

theorem split_read_reassembly:
  assumes "\<not> contains MLLP_START p" and "\<not> contains MLLP_END p"
    and "c1 @ c2 = encode p" and "c1 \<noteq> []" and "c2 \<noteq> []"
  shows "feed [] c1 = Inr ([], c1) \<and> feed c1 c2 = Inr ([p], [])
    \<and> (\<not> contains MLLP_END b \<longrightarrow> feed b [0x1C] = Inr ([], b @ [0x1C]))"
  using decode_all_idle[OF no_end_prefix[OF assms(2,3,5)]] decode_all_frame[OF assms(2), of "[]"]
    decode_all_idle[OF no_end_snoc, of b] assms(3)
  by (simp add: feed_def decode_all_Nil)

text \<open>
  C1. Round trip. For a payload that holds neither the start marker nor the end marker,
  draining the frame built by the sender yields the payload, alone, and an empty buffer.
\<close>

theorem round_trip_framing:
  assumes "\<not> contains MLLP_START p" and "\<not> contains MLLP_END p"
  shows "decode_all (encode p) = Inr ([p], [])"
  using decode_all_frame[OF assms(2), of "[]"] by (simp add: decode_all_Nil)

theorem round_trip_framing_witness:
  "\<not> contains MLLP_START [0x4D, 0x53, 0x48] \<and> \<not> contains MLLP_END [0x4D, 0x53, 0x48]
   \<and> decode_all (encode [0x4D, 0x53, 0x48]) = Inr ([[0x4D, 0x53, 0x48]], [])"
  using round_trip_framing [of "[0x4D, 0x53, 0x48]"]
  by (simp add: contains_def MLLP_START_def MLLP_END_def startswith_def)

theorem split_read_reassembly_witness:
  "\<not> contains MLLP_START [0x41] \<and> \<not> contains MLLP_END [0x41]
   \<and> [0x0B, 0x41, 0x1C] @ [0x0D] = encode [0x41] \<and> [0x0B, 0x41, 0x1C] \<noteq> ([] :: bytes) \<and> [0x0D] \<noteq> ([] :: bytes)
   \<and> feed [] [0x0B, 0x41, 0x1C] = Inr ([], [0x0B, 0x41, 0x1C])
   \<and> feed [0x0B, 0x41, 0x1C] [0x0D] = Inr ([[0x41]], [])
   \<and> \<not> contains MLLP_END [0x0B, 0x42] \<and> feed [0x0B, 0x42] [0x1C] = Inr ([], [0x0B, 0x42, 0x1C])"
  using split_read_reassembly [of "[0x41]" "[0x0B, 0x41, 0x1C]" "[0x0D]" "[0x0B, 0x42]"]
  by (simp add: contains_def MLLP_START_def MLLP_END_def startswith_def encode_def)

text \<open>
  Noise that holds neither the start marker nor the end marker is dropped: the frame that
  follows it is cut out as if the noise were not there.
\<close>

lemma find_start_after:
  "\<not> contains MLLP_START noise \<Longrightarrow> find_sub MLLP_START (noise @ MLLP_START @ rest) = Some (length noise)"
proof (induction noise)
  case Nil then show ?case by (simp add: MLLP_START_def startswith_def)
next
  case (Cons x xs)
  from Cons.prems have a: "\<not> startswith (x # xs) MLLP_START" and b: "\<not> contains MLLP_START xs"
    by (auto simp: contains_def split: if_splits)
  from a have "\<not> startswith ((x # xs) @ MLLP_START @ rest) MLLP_START"
    by (simp add: startswith_def MLLP_START_def)
  with Cons.IH[OF b] show ?case by simp
qed

lemma no_end_join:
  "\<not> contains MLLP_END a \<Longrightarrow> \<not> contains MLLP_END (x # q) \<Longrightarrow> x \<noteq> 0x0D \<Longrightarrow>
   \<not> contains MLLP_END (a @ x # q)"
proof (induction a)
  case Nil then show ?case by simp
next
  case (Cons y ys)
  from Cons.prems(1) have a: "\<not> startswith (y # ys) MLLP_END" and b: "\<not> contains MLLP_END ys"
    by (auto simp: contains_def split: if_splits)
  from a Cons.prems(3) have "\<not> startswith ((y # ys) @ x # q) MLLP_END"
    by (cases ys) (auto simp: startswith_def MLLP_END_def)
  with Cons.IH[OF b Cons.prems(2,3)] show ?case by (simp add: contains_def)
qed

lemma no_end_Cons_start: "\<not> contains MLLP_END p \<Longrightarrow> \<not> contains MLLP_END (0x0B # p)"
  by (cases p) (auto simp: contains_def startswith_def MLLP_END_def)

lemma next_frame_noise:
  assumes "\<not> contains MLLP_START noise" and "\<not> contains MLLP_END noise"
    and "\<not> contains MLLP_END p"
  shows "next_frame (noise @ encode p @ rest) = Inr (encode p, rest)"
proof -
  have s: "find_sub MLLP_START (noise @ encode p @ rest) = Some (length noise)"
    using find_start_after[OF assms(1), of "p @ MLLP_END @ rest"] by (simp add: encode_def)
  have "\<not> contains MLLP_END (noise @ 0x0B # p)"
    by (rule no_end_join[OF assms(2) no_end_Cons_start[OF assms(3)]]) simp
  from find_end_after[OF this, of rest]
  have e: "find_sub MLLP_END (noise @ encode p @ rest) = Some (length noise + 1 + length p)"
    by (simp add: encode_def MLLP_START_def)
  have l: "length noise + 1 + length p + length MLLP_END = length (noise @ encode p)"
    by (simp add: encode_def MLLP_START_def)
  have "take (length (noise @ encode p)) ((noise @ encode p) @ rest) = noise @ encode p"
    "drop (length (noise @ encode p)) ((noise @ encode p) @ rest) = rest"
    by (simp_all del: append_assoc)
  then have "take (length noise + 1 + length p + length MLLP_END) (noise @ encode p @ rest)
      = noise @ encode p"
    "drop (length noise + 1 + length p + length MLLP_END) (noise @ encode p @ rest) = rest"
    unfolding l by simp_all
  then show ?thesis
    by (simp add: next_frame_def index_def s e slice_def Let_def)
qed

lemma decode_all_noise:
  assumes "\<not> contains MLLP_START noise" and "\<not> contains MLLP_END noise"
    and "\<not> contains MLLP_END p"
  shows "decode_all (noise @ encode p @ rest) =
    (case decode_all rest of Inl e \<Rightarrow> Inl e | Inr (ps, r) \<Rightarrow> Inr (p # ps, r))"
proof -
  have "find_sub MLLP_START (noise @ encode p @ rest) \<noteq> None"
    using find_start_after[OF assms(1), of "p @ MLLP_END @ rest"] by (simp add: encode_def)
  then have s: "contains MLLP_START (noise @ encode p @ rest)" by (simp add: contains_def)
  have "\<not> contains MLLP_END (noise @ 0x0B # p)"
    by (rule no_end_join[OF assms(2) no_end_Cons_start[OF assms(3)]]) simp
  from find_end_after[OF this, of rest]
  have "find_sub MLLP_END (noise @ encode p @ rest) \<noteq> None"
    by (simp add: encode_def MLLP_START_def)
  then have e: "contains MLLP_END (noise @ encode p @ rest)" by (simp add: contains_def)
  show ?thesis
    by (subst decode_all.simps)
       (simp add: s e next_frame_noise[OF assms] strip_framing_encode split: sum.splits)
qed

text \<open>
  C2. Noise before the first start marker. The end marker is searched from the start of
  the buffer, not from the start marker: noise that holds the end marker makes the loop
  cut an empty frame, so that an extra, empty payload is decoded before the real one.
\<close>

theorem noise_end_marker_extra_payload:
  "decode_all ([0x1C, 0x0D] @ encode [0x41]) = Inr ([[], [0x41]], [])"
  by code_simp


subsection \<open>Control fields and acknowledgments\<close>

lemma split_on_nonempty: "split_on sep s \<noteq> []"
  by (induction s) (auto split: list.splits)

lemma split_on_sep_free: "sep \<notin> set xs \<Longrightarrow> split_on sep xs = [xs]"
  by (induction xs) auto

lemma split_on_append: "sep \<notin> set xs \<Longrightarrow> split_on sep (xs @ sep # ys) = xs # split_on sep ys"
  by (induction xs) auto

lemma split_on_fields_free: "f \<in> set (split_on sep s) \<Longrightarrow> sep \<notin> set f"
proof (induction s arbitrary: f)
  case Nil then show ?case by simp
next
  case (Cons c cs)
  show ?case
  proof (cases "c = sep")
    case True with Cons show ?thesis by auto
  next
    case False
    obtain w ws where w: "split_on sep cs = w # ws"
      using split_on_nonempty[of sep cs] by (cases "split_on sep cs") auto
    with False Cons.prems have "f = c # w \<or> f \<in> set ws" by auto
    with w False Cons.IH[of w] Cons.IH[of f] show ?thesis by auto
  qed
qed

lemma split_on_subset: "f \<in> set (split_on sep s) \<Longrightarrow> set f \<subseteq> set s"
proof (induction s arbitrary: f)
  case Nil then show ?case by simp
next
  case (Cons c cs)
  show ?case
  proof (cases "c = sep")
    case True with Cons show ?thesis by auto
  next
    case False
    obtain w ws where w: "split_on sep cs = w # ws"
      using split_on_nonempty[of sep cs] by (cases "split_on sep cs") auto
    with False Cons.prems have "f = c # w \<or> f \<in> set ws" by auto
    with w False Cons.IH[of w] Cons.IH[of f] show ?thesis by auto
  qed
qed

lemma hd_split_on_mem: "hd (split_on sep s) \<in> set (split_on sep s)"
  using split_on_nonempty[of sep s] by simp

lemma first_line_eq: "(case split_on sep s of [] \<Rightarrow> [] | l # x \<Rightarrow> l) = hd (split_on sep s)"
  using split_on_nonempty[of sep s] by (cases "split_on sep s") auto

lemma item_Inr: "i < length xs \<Longrightarrow> item xs i = Inr (xs ! i)"
  by (simp add: item_def)

lemma control_fields_read:
  "10 \<le> length (split_on 0x7C (hd (split_on 0x0D message))) \<Longrightarrow>
   control_fields message =
     (let fields = split_on 0x7C (hd (split_on 0x0D message))
      in Inr \<lparr>sending_app = fields ! 2, sending_facility = fields ! 3, receiving_app = fields ! 4,
              receiving_facility = fields ! 5, msg_control_id = fields ! 9\<rparr>)"
  by (simp add: control_fields_def first_line_eq Let_def bind_def item_Inr)

lemma control_fields_default:
  "length (split_on 0x7C (hd (split_on 0x0D message))) < 10 \<Longrightarrow>
   control_fields message =
     Inr \<lparr>sending_app = u ''UNKNOWN'', sending_facility = u ''UNKNOWN'',
          receiving_app = u ''BILLING'', receiving_facility = u ''HOSPITAL'',
          msg_control_id = u ''0''\<rparr>"
  by (simp add: control_fields_def first_line_eq Let_def)

lemma control_fields_total: "\<exists>c. control_fields message = Inr c"
proof (cases "10 \<le> length (split_on 0x7C (hd (split_on 0x0D message)))")
  case True
  from control_fields_read[OF True] show ?thesis by (simp add: Let_def)
next
  case False
  then have "length (split_on 0x7C (hd (split_on 0x0D message))) < 10" by simp
  from control_fields_default[OF this] show ?thesis by simp
qed

lemma digit_range: "0x30 \<le> digit n \<and> digit n \<le> 0x39"
proof -
  have "n mod 10 < 10" by simp
  then show ?thesis unfolding digit_def by linarith
qed

lemma strftime_digits: "c \<in> set (strftime now) \<Longrightarrow> 0x30 \<le> c \<and> c \<le> 0x39"
  using digit_range by (auto simp: strftime_def zfill2_def zfill4_def)

lemma strftime_free: "0x7C \<notin> set (strftime now)" "0x0D \<notin> set (strftime now)"
  using strftime_digits[of "0x7C" now] strftime_digits[of "0x0D" now] by auto

lemma ack_header_fields:
  assumes "0x7C \<notin> set (sending_app c)" "0x7C \<notin> set (sending_facility c)"
    "0x7C \<notin> set (receiving_app c)" "0x7C \<notin> set (receiving_facility c)"
    "0x7C \<notin> set (msg_control_id c)" "0x7C \<notin> set ts"
  shows "split_on 0x7C (ack_header ts c) =
    [u ''MSH'', u ''^~'' @ [0x5C] @ u ''&'', receiving_app c, receiving_facility c,
     sending_app c, sending_facility c, ts, [], u ''ACK^P03'', msg_control_id c, u ''P'', u ''2.5'']"
  using assms by (simp add: ack_header_def u_def split_on_append split_on_sep_free)

lemma ack_status_fields:
  assumes "0x7C \<notin> set (msg_control_id c)"
  shows "split_on 0x7C (ack_status c) =
    [u ''MSA'', u ''AA'', msg_control_id c, u ''Message received successfully'']"
  using assms by (simp add: ack_status_def u_def split_on_append split_on_sep_free)

lemma ack_text_lines:
  assumes "0x0D \<notin> set (sending_app c)" "0x0D \<notin> set (sending_facility c)"
    "0x0D \<notin> set (receiving_app c)" "0x0D \<notin> set (receiving_facility c)"
    "0x0D \<notin> set (msg_control_id c)" "0x0D \<notin> set ts"
  shows "split_on 0x0D (ack_text ts c) = [ack_header ts c, ack_status c, []]"
proof -
  have "0x0D \<notin> set (ack_header ts c)" "0x0D \<notin> set (ack_status c)"
    using assms by (auto simp: ack_header_def ack_status_def u_def)
  then show ?thesis
    by (simp add: ack_text_def split_on_append)
qed

text \<open>
  C5. Acknowledgment identity. When the first line of a message has at least ten fields,
  with sending application A (field 2), sending facility B (field 3), receiving
  application C (field 4), receiving facility D (field 5) and control ID M1 (field 9),
  the acknowledgment is the frame of two lines: a header whose fields 2 to 5 are C, D, A,
  B and whose field 9 is M1, and a status line with the fields MSA, AA, M1 and the note.
\<close>

theorem acknowledgment_identity:
  assumes "fs = split_on 0x7C (hd (split_on 0x0D message))" and "10 \<le> length fs"
    and "A = fs ! 2" and "B = fs ! 3" and "C = fs ! 4" and "D = fs ! 5"
    and "M1 = fs ! 9"
  shows "\<exists>c. control_fields message = Inr c
    \<and> create_ack now message =
        bind (str_encode (ack_text (strftime now) c)) (\<lambda>ack. Inr (MLLP_START @ ack @ MLLP_END))
    \<and> split_on 0x0D (ack_text (strftime now) c) = [ack_header (strftime now) c, ack_status c, []]
    \<and> split_on 0x7C (ack_header (strftime now) c) =
        [u ''MSH'', u ''^~'' @ [0x5C] @ u ''&'', C, D, A, B, strftime now, [],
         u ''ACK^P03'', M1, u ''P'', u ''2.5'']
    \<and> split_on 0x7C (ack_status c) = [u ''MSA'', u ''AA'', M1, u ''Message received successfully'']"
proof -
  define c where "c = \<lparr>sending_app = A, sending_facility = B, receiving_app = C,
    receiving_facility = D, msg_control_id = M1\<rparr>"
  have cf: "control_fields message = Inr c"
    using control_fields_read[of message] assms by (simp add: c_def Let_def)
  have mem: "\<And>i. i < 10 \<Longrightarrow> fs ! i \<in> set fs"
    using assms(2) by simp
  have pipe: "\<And>i. i < 10 \<Longrightarrow> 0x7C \<notin> set (fs ! i)"
    using mem split_on_fields_free assms(1) by metis
  have "0x0D \<notin> set (hd (split_on 0x0D message))"
    using hd_split_on_mem split_on_fields_free by metis
  moreover have "\<And>i. i < 10 \<Longrightarrow> set (fs ! i) \<subseteq> set (hd (split_on 0x0D message))"
    using mem split_on_subset assms(1) by metis
  ultimately have cr: "\<And>i. i < 10 \<Longrightarrow> 0x0D \<notin> set (fs ! i)"
    by blast
  have p: "0x7C \<notin> set (sending_app c)" "0x7C \<notin> set (sending_facility c)"
    "0x7C \<notin> set (receiving_app c)" "0x7C \<notin> set (receiving_facility c)"
    "0x7C \<notin> set (msg_control_id c)"
    using pipe[of 2] pipe[of 3] pipe[of 4] pipe[of 5] pipe[of 9] assms(3-7) by (simp_all add: c_def)
  have r: "0x0D \<notin> set (sending_app c)" "0x0D \<notin> set (sending_facility c)"
    "0x0D \<notin> set (receiving_app c)" "0x0D \<notin> set (receiving_facility c)"
    "0x0D \<notin> set (msg_control_id c)"
    using cr[of 2] cr[of 3] cr[of 4] cr[of 5] cr[of 9] assms(3-7) by (simp_all add: c_def)
  have "create_ack now message =
      bind (str_encode (ack_text (strftime now) c)) (\<lambda>ack. Inr (MLLP_START @ ack @ MLLP_END))"
    by (simp add: create_ack_def cf bind_def)
  moreover have "split_on 0x0D (ack_text (strftime now) c) = [ack_header (strftime now) c, ack_status c, []]"
    by (rule ack_text_lines[OF r strftime_free(2)])
  moreover have "split_on 0x7C (ack_header (strftime now) c) =
        [u ''MSH'', u ''^~'' @ [0x5C] @ u ''&'', C, D, A, B, strftime now, [],
         u ''ACK^P03'', M1, u ''P'', u ''2.5'']"
    using ack_header_fields[OF p strftime_free(1)] by (simp add: c_def)
  moreover have "split_on 0x7C (ack_status c) = [u ''MSA'', u ''AA'', M1, u ''Message received successfully'']"
    using ack_status_fields[OF p(5)] by (simp add: c_def)
  ultimately show ?thesis using cf by blast
qed

lemma sample_fields:
  "split_on 0x7C (hd (split_on 0x0D sample_message)) =
     [u ''MSH'', u ''^~'' @ [0x5C] @ u ''&'', u ''EHR'', u ''HOSP'', u ''REV'', u ''INT'',
      u ''20240101000000'', [], u ''MDM^T02'', u ''MSG001'', u ''P'', u ''2.5'']"
  by (simp add: sample_message_def u_def)

theorem acknowledgment_identity_witness:
  "10 \<le> length (split_on 0x7C (hd (split_on 0x0D sample_message)))
   \<and> (\<exists>c. control_fields sample_message = Inr c
    \<and> split_on 0x7C (ack_header (strftime \<lparr>year = 2024, month = 1, day = 2, hour = 3, minute = 4, second = 5\<rparr>) c) =
        [u ''MSH'', u ''^~'' @ [0x5C] @ u ''&'', u ''REV'', u ''INT'', u ''EHR'', u ''HOSP'',
         u ''20240102030405'', [], u ''ACK^P03'', u ''MSG001'', u ''P'', u ''2.5'']
    \<and> split_on 0x7C (ack_status c) = [u ''MSA'', u ''AA'', u ''MSG001'', u ''Message received successfully''])"
proof -
  have s: "strftime \<lparr>year = 2024, month = 1, day = 2, hour = 3, minute = 4, second = 5\<rparr> = u ''20240102030405''"
    by (simp add: strftime_def zfill2_def zfill4_def digit_def u_def)
  have l: "10 \<le> length (split_on 0x7C (hd (split_on 0x0D sample_message)))"
    by (simp add: sample_fields)
  show ?thesis
    using acknowledgment_identity [OF refl l refl refl refl refl refl,
        of "\<lparr>year = 2024, month = 1, day = 2, hour = 3, minute = 4, second = 5\<rparr>"] l
    unfolding s by (auto simp add: sample_fields)
qed

text \<open>
  C6. Defaults. Reading the control fields never raises, whatever the message; when the
  first line has fewer than ten fields, as for the empty message, the result is UNKNOWN
  for the sending application and facility, BILLING and HOSPITAL for the receiving
  application and facility, and 0 for the control ID.
\<close>

theorem control_field_defaulting:
  "(\<exists>c. control_fields message = Inr c)
   \<and> (length (split_on 0x7C (hd (split_on 0x0D message))) < 10 \<longrightarrow>
        control_fields message =
          Inr \<lparr>sending_app = u ''UNKNOWN'', sending_facility = u ''UNKNOWN'',
               receiving_app = u ''BILLING'', receiving_facility = u ''HOSPITAL'',
               msg_control_id = u ''0''\<rparr>)
   \<and> control_fields [] =
          Inr \<lparr>sending_app = u ''UNKNOWN'', sending_facility = u ''UNKNOWN'',
               receiving_app = u ''BILLING'', receiving_facility = u ''HOSPITAL'',
               msg_control_id = u ''0''\<rparr>"
  using control_fields_total[of message] control_fields_default[of message] control_fields_default[of "[]"]
  by simp

theorem control_field_defaulting_witness:
  "length (split_on 0x7C (hd (split_on 0x0D (u ''MSH|^~|EHR|HOSP'')))) < 10
   \<and> control_fields (u ''MSH|^~|EHR|HOSP'') =
          Inr \<lparr>sending_app = u ''UNKNOWN'', sending_facility = u ''UNKNOWN'',
               receiving_app = u ''BILLING'', receiving_facility = u ''HOSPITAL'',
               msg_control_id = u ''0''\<rparr>"
  using control_field_defaulting [of "u ''MSH|^~|EHR|HOSP''"]
  by (simp add: u_def)

subsection \<open>Message information\<close>

lemma info_line_total: "\<exists>info'. info_line info l = Inr info'"
  by (simp add: info_line_def Let_def bind_def item_Inr)

lemma info_line_other:
  "\<not> startswith l (u ''MSH|'') \<Longrightarrow> info_line info l = Inr info' \<Longrightarrow> message_type info' = message_type info"
  by (auto simp: info_line_def Let_def bind_def item_Inr split: if_splits)

lemma info_line_header:
  "startswith l (u ''MSH|'') \<Longrightarrow> 8 < length (split_on 0x7C l) \<Longrightarrow>
   info_line info l = Inr (info\<lparr>message_type := split_on 0x7C l ! 8\<rparr>)"
  by (simp add: info_line_def Let_def bind_def item_Inr)

lemma info_lines_total: "\<exists>info'. info_lines ls info = Inr info'"
proof (induction ls arbitrary: info)
  case Nil show ?case by simp
next
  case (Cons l ls)
  obtain i1 where "info_line info l = Inr i1" using info_line_total by blast
  with Cons[of i1] show ?case by simp
qed

lemma info_lines_other:
  "\<forall>l \<in> set ls. \<not> startswith l (u ''MSH|'') \<Longrightarrow> info_lines ls info = Inr info' \<Longrightarrow>
   message_type info' = message_type info"
proof (induction ls arbitrary: info)
  case Nil then show ?case by simp
next
  case (Cons l ls)
  obtain i1 where i1: "info_line info l = Inr i1" using info_line_total by blast
  with Cons.prems have "message_type i1 = message_type info" "info_lines ls i1 = Inr info'"
    using info_line_other[of l info i1] by auto
  with Cons.IH[of i1] Cons.prems(1) show ?case by simp
qed

lemma extract_message_info_total: "\<exists>info. extract_message_info message = Inr info"
  by (simp add: extract_message_info_def info_lines_total)

text \<open>
  C9, as amended. Counting the fields of the first line from 0: when that line starts
  with \<^verbatim>\<open>MSH|\<close> and no later line does, field 8, if present, is the message type
  that the receiver logs; field 9, when the line has at least ten fields, is the control
  ID that the acknowledgment echoes.
\<close>

theorem header_field_positions:
  assumes "ls = split_on 0x0D message" and "fs = split_on 0x7C (hd ls)"
    and "startswith (hd ls) (u ''MSH|'')"
    and "\<forall>l \<in> set (tl ls). \<not> startswith l (u ''MSH|'')"
  shows "(8 < length fs \<longrightarrow>
            (\<exists>info. extract_message_info message = Inr info \<and> message_type info = fs ! 8))
       \<and> (10 \<le> length fs \<longrightarrow>
            (\<exists>c. control_fields message = Inr c \<and> msg_control_id c = fs ! 9))"
proof (intro conjI impI)
  assume len: "8 < length fs"
  from split_on_nonempty[of "0x0D" message] assms(1) have "ls \<noteq> []" by simp
  then obtain l rest where ls: "ls = l # rest"
    by (cases ls) auto
  let ?i0 = "\<lparr>message_type = u ''Unknown'', patient_id = u ''Unknown'', codes = []\<rparr>"
  have first: "info_line ?i0 l = Inr (?i0\<lparr>message_type := fs ! 8\<rparr>)"
    using info_line_header[of l ?i0] assms(2,3) len ls by simp
  obtain info where info: "info_lines rest (?i0\<lparr>message_type := fs ! 8\<rparr>) = Inr info"
    using info_lines_total by blast
  from info_lines_other[OF _ info] assms(4) ls have "message_type info = fs ! 8" by simp
  moreover have "split_on 0x0D message = l # rest"
    using assms(1) ls by simp
  then have "extract_message_info message = Inr info"
    using first info by (simp add: extract_message_info_def)
  ultimately show "\<exists>info. extract_message_info message = Inr info \<and> message_type info = fs ! 8"
    by blast
next
  assume "10 \<le> length fs"
  with control_fields_read[of message] assms(1,2)
  show "\<exists>c. control_fields message = Inr c \<and> msg_control_id c = fs ! 9"
    by (simp add: Let_def)
qed

lemma sample_lines: "split_on 0x0D sample_message = [butlast sample_message, []]"
  by (simp add: sample_message_def u_def)

theorem header_field_positions_witness:
  "startswith (hd (split_on 0x0D sample_message)) (u ''MSH|'')
   \<and> tl (split_on 0x0D sample_message) = [[]] \<and> \<not> startswith [] (u ''MSH|'')
   \<and> 8 < length (split_on 0x7C (hd (split_on 0x0D sample_message)))
   \<and> 10 \<le> length (split_on 0x7C (hd (split_on 0x0D sample_message)))
   \<and> (\<exists>info. extract_message_info sample_message = Inr info \<and> message_type info = u ''MDM^T02'')
   \<and> (\<exists>c. control_fields sample_message = Inr c \<and> msg_control_id c = u ''MSG001'')"
proof -
  have a: "startswith (hd (split_on 0x0D sample_message)) (u ''MSH|'')"
    by (simp add: sample_lines) (simp add: sample_message_def u_def startswith_def)
  have t: "tl (split_on 0x0D sample_message) = [[]]"
    by (simp add: sample_lines)
  have n: "\<not> startswith [] (u ''MSH|'')"
    by (simp add: u_def startswith_def)
  from t n have b: "\<forall>l \<in> set (tl (split_on 0x0D sample_message)). \<not> startswith l (u ''MSH|'')"
    by simp
  show ?thesis
    using header_field_positions [OF refl refl a b] a t n
    by (simp add: sample_fields)
qed

text \<open>
  C9 as stated fails on the example message: its field 9 is the control ID \<^verbatim>\<open>MSG001\<close>,
  not the message type, which is field 8; its field 10 is the processing ID \<^verbatim>\<open>P\<close>.
\<close>

theorem header_field_positions_counterexample:
  "split_on 0x7C (hd (split_on 0x0D sample_message)) ! 9 = u ''MSG001''
   \<and> split_on 0x7C (hd (split_on 0x0D sample_message)) ! 10 = u ''P''
   \<and> extract_message_info sample_message =
       Inr \<lparr>message_type = u ''MDM^T02'', patient_id = u ''Unknown'', codes = []\<rparr>
   \<and> control_fields sample_message =
       Inr \<lparr>sending_app = u ''EHR'', sending_facility = u ''HOSP'', receiving_app = u ''REV'',
            receiving_facility = u ''INT'', msg_control_id = u ''MSG001''\<rparr>
   \<and> u ''MDM^T02'' \<noteq> u ''MSG001'' \<and> u ''MSG001'' \<noteq> u ''P''"
proof -
  have "extract_message_info sample_message =
       Inr \<lparr>message_type = u ''MDM^T02'', patient_id = u ''Unknown'', codes = []\<rparr>"
    by code_simp
  moreover have "control_fields sample_message =
       Inr \<lparr>sending_app = u ''EHR'', sending_facility = u ''HOSP'', receiving_app = u ''REV'',
            receiving_facility = u ''INT'', msg_control_id = u ''MSG001''\<rparr>"
    by code_simp
  ultimately show ?thesis by (simp add: sample_fields) (simp add: u_def)
qed

subsection \<open>UTF-8\<close>

lemma split64: "b < 64 \<Longrightarrow> (a * 64 + b) div 64 = (a::nat) \<and> (a * 64 + b) mod 64 = b"
  by simp

lemma seq2_nat:
  fixes a b :: nat
  assumes "2 \<le> a" "a < 32" "b < 64"
  defines "cp \<equiv> a * 64 + b"
  shows "0x80 \<le> cp \<and> cp < 0x800 \<and> cp div 64 = a \<and> cp mod 64 = b"
proof -
  from split64[OF assms(3), of a] have "cp div 64 = a" "cp mod 64 = b"
    by (simp_all add: cp_def)
  moreover have "0x80 \<le> cp" "cp < 0x800" using assms(1-3) unfolding cp_def by (simp_all add: algebra_simps)
  ultimately show ?thesis by simp
qed

lemma seq3_nat:
  fixes a b c :: nat
  assumes "a < 16" "b < 64" "c < 64" and "a = 0 \<longrightarrow> 32 \<le> b" and "a = 13 \<longrightarrow> b < 32"
  defines "cp \<equiv> (a * 64 + b) * 64 + c"
  shows "0x800 \<le> cp \<and> cp < 0x10000 \<and> \<not> (0xD800 \<le> cp \<and> cp \<le> 0xDFFF)
    \<and> cp div 4096 = a \<and> cp div 64 mod 64 = b \<and> cp mod 64 = c"
proof -
  from split64[OF assms(3), of "a * 64 + b"]
  have d1: "cp div 64 = a * 64 + b" and m1: "cp mod 64 = c"
    by (simp_all add: cp_def)
  from split64[OF assms(2), of a] d1
  have d2: "cp div 64 div 64 = a" and m2: "cp div 64 mod 64 = b"
    by simp_all
  have "cp div 4096 = cp div 64 div 64" by (simp add: div_mult2_eq)
  with d2 have d3: "cp div 4096 = a" by simp
  have "0x800 \<le> cp"
  proof (cases "a = 0")
    case True with assms(1-5) show ?thesis unfolding cp_def by simp
  next
    case False
    then have "1 \<le> a" by simp
    with assms(1-3) show ?thesis unfolding cp_def by (simp add: algebra_simps)
  qed
  moreover have "cp < 0x10000"
    using assms(1-3) unfolding cp_def by (simp add: algebra_simps)
  moreover have "\<not> (0xD800 \<le> cp \<and> cp \<le> 0xDFFF)"
  proof -
    consider "a < 13" | "a = 13" | "13 < a" by linarith
    then show ?thesis
    proof cases
      case 1 with assms(1-3) show ?thesis unfolding cp_def by (simp add: algebra_simps)
    next
      case 2 with assms(1-5) show ?thesis unfolding cp_def by simp
    next
      case 3 with assms(1-3) show ?thesis unfolding cp_def by (simp add: algebra_simps)
    qed
  qed
  ultimately show ?thesis using d3 m2 m1 by simp
qed

lemma seq4_nat:
  fixes a b c d :: nat
  assumes "a < 5" "b < 64" "c < 64" "d < 64" and "a = 0 \<longrightarrow> 16 \<le> b" and "a = 4 \<longrightarrow> b < 16"
  defines "cp \<equiv> ((a * 64 + b) * 64 + c) * 64 + d"
  shows "0x10000 \<le> cp \<and> cp < 0x110000
    \<and> cp div 262144 = a \<and> cp div 4096 mod 64 = b \<and> cp div 64 mod 64 = c \<and> cp mod 64 = d"
proof -
  from split64[OF assms(4), of "(a * 64 + b) * 64 + c"]
  have d1: "cp div 64 = (a * 64 + b) * 64 + c" and m1: "cp mod 64 = d"
    by (simp_all add: cp_def)
  from split64[OF assms(3), of "a * 64 + b"] d1
  have d2: "cp div 64 div 64 = a * 64 + b" and m2: "cp div 64 mod 64 = c"
    by simp_all
  from split64[OF assms(2), of a] d2
  have d3: "cp div 64 div 64 div 64 = a" and m3: "cp div 64 div 64 mod 64 = b"
    by simp_all
  have e: "cp div 4096 = cp div 64 div 64" "cp div 262144 = cp div 64 div 64 div 64"
    by (simp_all add: div_mult2_eq)
  have "0x10000 \<le> cp"
  proof (cases "a = 0")
    case True with assms(1-6) show ?thesis unfolding cp_def by simp
  next
    case False
    then have "1 \<le> a" by simp
    with assms(1-4) show ?thesis unfolding cp_def by (simp add: algebra_simps)
  qed
  moreover have "cp < 0x110000"
  proof (cases "a = 4")
    case True with assms(1-6) show ?thesis unfolding cp_def by simp
  next
    case False
    with assms(1) have "a \<le> 3" by simp
    with assms(1-4) show ?thesis unfolding cp_def by (simp add: algebra_simps)
  qed
  ultimately show ?thesis using d3 m3 m2 m1 e by simp
qed

lemma cont_run_Suc:
  "cont_run (t # ts) bs = Suc n \<Longrightarrow> \<exists>b bs'. bs = b # bs' \<and> t b \<and> cont_run ts bs' = n"
  by (cases bs) (auto split: if_splits)

lemma enc1:
  fixes b0 :: byte
  assumes "b0 < 0x80"
  shows "encode_cp (unat b0) = Inr [b0]"
proof -
  have "unat b0 < 0x80" using assms by (simp add: word_less_nat_alt)
  then show ?thesis by (simp add: encode_cp_def)
qed

lemma enc2:
  fixes b0 b1 :: byte
  assumes "0xC2 \<le> b0" "b0 \<le> 0xDF" "is_cont b1"
  shows "encode_cp ((unat b0 - 0xC0) * 64 + (unat b1 - 0x80)) = Inr [b0, b1]"
proof -
  have r: "0xC2 \<le> unat b0" "unat b0 \<le> 0xDF" "0x80 \<le> unat b1" "unat b1 \<le> 0xBF"
    using assms by (simp_all add: word_le_nat_alt is_cont_def)
  define a where "a = unat b0 - 0xC0"
  define b where "b = unat b1 - 0x80"
  define cp where "cp = a * 64 + b"
  have "2 \<le> a" "a < 32" "b < 64" using r by (simp_all add: a_def b_def)
  from seq2_nat[OF this] have f: "0x80 \<le> cp" "cp < 0x800" "cp div 64 = a" "cp mod 64 = b"
    by (simp_all add: cp_def)
  have "0xC0 + a = unat b0" "0x80 + b = unat b1" using r by (simp_all add: a_def b_def)
  then have "(of_nat (0xC0 + cp div 64) :: byte) = b0" "(of_nat (0x80 + cp mod 64) :: byte) = b1"
    using f by simp_all
  with f have "encode_cp cp = Inr [b0, b1]"
    by (simp add: encode_cp_def)
  then show ?thesis by (simp add: cp_def a_def b_def)
qed

lemma enc3:
  fixes b0 b1 b2 :: byte
  assumes "0xE0 \<le> b0" "b0 \<le> 0xEF" "second_ok b0 b1" "is_cont b2"
  shows "encode_cp (((unat b0 - 0xE0) * 64 + (unat b1 - 0x80)) * 64 + (unat b2 - 0x80)) = Inr [b0, b1, b2]"
proof -
  have e: "b0 \<noteq> 0xF0" "b0 \<noteq> 0xF4" using assms(1,2) by auto
  have i: "(b0 = 0xE0) = (unat b0 = 0xE0)" "(b0 = 0xED) = (unat b0 = 0xED)"
    by (simp_all add: word_unat_eq_iff)
  have r: "0xE0 \<le> unat b0" "unat b0 \<le> 0xEF" "0x80 \<le> unat b1" "unat b1 \<le> 0xBF"
    "0x80 \<le> unat b2" "unat b2 \<le> 0xBF"
    "unat b0 = 0xE0 \<longrightarrow> 0xA0 \<le> unat b1" "unat b0 = 0xED \<longrightarrow> unat b1 \<le> 0x9F"
    using assms e unfolding second_ok_def is_cont_def i
    by (auto simp add: word_le_nat_alt split: if_splits)
  define a where "a = unat b0 - 0xE0"
  define b where "b = unat b1 - 0x80"
  define c where "c = unat b2 - 0x80"
  define cp where "cp = (a * 64 + b) * 64 + c"
  have "a < 16" "b < 64" "c < 64" "a = 0 \<longrightarrow> 32 \<le> b" "a = 13 \<longrightarrow> b < 32"
    using r by (auto simp: a_def b_def c_def)
  from seq3_nat[OF this]
  have f: "0x800 \<le> cp" "cp < 0x10000" "\<not> (0xD800 \<le> cp \<and> cp \<le> 0xDFFF)"
    "cp div 4096 = a" "cp div 64 mod 64 = b" "cp mod 64 = c"
    by (simp_all add: cp_def)
  have "0xE0 + a = unat b0" "0x80 + b = unat b1" "0x80 + c = unat b2"
    using r by (simp_all add: a_def b_def c_def)
  then have "(of_nat (0xE0 + cp div 4096) :: byte) = b0"
    "(of_nat (0x80 + cp div 64 mod 64) :: byte) = b1" "(of_nat (0x80 + cp mod 64) :: byte) = b2"
    using f by simp_all
  with f have "encode_cp cp = Inr [b0, b1, b2]"
    by (simp add: encode_cp_def)
  then show ?thesis by (simp add: cp_def a_def b_def c_def)
qed

lemma enc4:
  fixes b0 b1 b2 b3 :: byte
  assumes "0xF0 \<le> b0" "b0 \<le> 0xF4" "second_ok b0 b1" "is_cont b2" "is_cont b3"
  shows "encode_cp ((((unat b0 - 0xF0) * 64 + (unat b1 - 0x80)) * 64 + (unat b2 - 0x80)) * 64
           + (unat b3 - 0x80)) = Inr [b0, b1, b2, b3]"
proof -
  have e: "b0 \<noteq> 0xE0" "b0 \<noteq> 0xED" using assms(1,2) by auto
  have i: "(b0 = 0xF0) = (unat b0 = 0xF0)" "(b0 = 0xF4) = (unat b0 = 0xF4)"
    by (simp_all add: word_unat_eq_iff)
  have r: "0xF0 \<le> unat b0" "unat b0 \<le> 0xF4" "0x80 \<le> unat b1" "unat b1 \<le> 0xBF"
    "0x80 \<le> unat b2" "unat b2 \<le> 0xBF" "0x80 \<le> unat b3" "unat b3 \<le> 0xBF"
    "unat b0 = 0xF0 \<longrightarrow> 0x90 \<le> unat b1" "unat b0 = 0xF4 \<longrightarrow> unat b1 \<le> 0x8F"
    using assms e unfolding second_ok_def is_cont_def i
    by (auto simp add: word_le_nat_alt split: if_splits)
  define a where "a = unat b0 - 0xF0"
  define b where "b = unat b1 - 0x80"
  define c where "c = unat b2 - 0x80"
  define d where "d = unat b3 - 0x80"
  define cp where "cp = ((a * 64 + b) * 64 + c) * 64 + d"
  have "a < 5" "b < 64" "c < 64" "d < 64" "a = 0 \<longrightarrow> 16 \<le> b" "a = 4 \<longrightarrow> b < 16"
    using r by (auto simp: a_def b_def c_def d_def)
  from seq4_nat[OF this]
  have f: "0x10000 \<le> cp" "cp < 0x110000"
    "cp div 262144 = a" "cp div 4096 mod 64 = b" "cp div 64 mod 64 = c" "cp mod 64 = d"
    by (simp_all add: cp_def)
  have "0xF0 + a = unat b0" "0x80 + b = unat b1" "0x80 + c = unat b2" "0x80 + d = unat b3"
    using r by (simp_all add: a_def b_def c_def d_def)
  then have "(of_nat (0xF0 + cp div 262144) :: byte) = b0"
    "(of_nat (0x80 + cp div 4096 mod 64) :: byte) = b1"
    "(of_nat (0x80 + cp div 64 mod 64) :: byte) = b2" "(of_nat (0x80 + cp mod 64) :: byte) = b3"
    using f by simp_all
  with f have "encode_cp cp = Inr [b0, b1, b2, b3]"
    by (simp add: encode_cp_def)
  then show ?thesis by (simp add: cp_def a_def b_def c_def d_def)
qed

lemma encode_assemble:
  assumes "seq_need b0 = Some need" and "cont_run (expected b0 need) bs = need"
  shows "encode_cp (assemble b0 need (take need bs)) = Inr (b0 # take need bs)"
proof -
  from assms(1) consider
      (one) "need = 0" "b0 < 0x80"
    | (two) "need = 1" "0xC2 \<le> b0" "b0 \<le> 0xDF"
    | (three) "need = 2" "0xE0 \<le> b0" "b0 \<le> 0xEF"
    | (four) "need = 3" "0xF0 \<le> b0" "b0 \<le> 0xF4"
    by (auto simp: seq_need_def split: if_splits)
  then show ?thesis
  proof cases
    case one
    then show ?thesis by (simp add: assemble_def lead_bits_def enc1)
  next
    case two
    from two(2,3) have e: "b0 \<noteq> 0xE0" "b0 \<noteq> 0xED" "b0 \<noteq> 0xF0" "b0 \<noteq> 0xF4" by auto
    from assms(2) two(1) have "cont_run [second_ok b0] bs = Suc 0" by (simp add: expected_def)
    from cont_run_Suc[OF this] obtain b1 bs' where b: "bs = b1 # bs'" "second_ok b0 b1" by blast
    with e have "is_cont b1" by (simp add: second_ok_def)
    from enc2[OF two(2,3) this] show ?thesis
      using two(1) b(1) by (simp add: assemble_def lead_bits_def)
  next
    case three
    from assms(2) three(1) have "cont_run [second_ok b0, is_cont] bs = Suc (Suc 0)"
      by (simp add: expected_def numeral_2_eq_2)
    from cont_run_Suc[OF this] obtain b1 bs' where b: "bs = b1 # bs'" "second_ok b0 b1"
      "cont_run [is_cont] bs' = Suc 0" by blast
    from cont_run_Suc[OF b(3)] obtain b2 bs'' where c: "bs' = b2 # bs''" "is_cont b2" by blast
    from enc3[OF three(2,3) b(2) c(2)] show ?thesis
      using three(1) b(1) c(1) by (simp add: assemble_def lead_bits_def)
  next
    case four
    from assms(2) four(1) have "cont_run [second_ok b0, is_cont, is_cont] bs = Suc (Suc (Suc 0))"
      by (simp add: expected_def numeral_3_eq_3 numeral_2_eq_2)
    from cont_run_Suc[OF this] obtain b1 bs' where b: "bs = b1 # bs'" "second_ok b0 b1"
      "cont_run [is_cont, is_cont] bs' = Suc (Suc 0)" by blast
    from cont_run_Suc[OF b(3)] obtain b2 bs'' where c: "bs' = b2 # bs''" "is_cont b2"
      "cont_run [is_cont] bs'' = Suc 0" by blast
    from cont_run_Suc[OF c(3)] obtain b3 bs''' where d: "bs'' = b3 # bs'''" "is_cont b3" by blast
    from enc4[OF four(2,3) b(2) c(2) d(2)] show ?thesis
      using four(1) b(1) c(1) d(1) by (simp add: assemble_def lead_bits_def)
  qed
qed

lemma scan_invalid: "seq_need b0 = None \<Longrightarrow> utf8_scan (b0 # bs) = None # utf8_scan bs"
  by (simp add: utf8_scan.simps)

lemma scan_complete:
  "seq_need b0 = Some need \<Longrightarrow> cont_run (expected b0 need) bs = need \<Longrightarrow>
   utf8_scan (b0 # bs) = Some (assemble b0 need (take need bs)) # utf8_scan (drop need bs)"
  by (simp add: utf8_scan.simps)

lemma scan_broken:
  "seq_need b0 = Some need \<Longrightarrow> cont_run (expected b0 need) bs = k \<Longrightarrow> k \<noteq> need \<Longrightarrow>
   utf8_scan (b0 # bs) = None # utf8_scan (drop k bs)"
  by (simp add: utf8_scan.simps)

lemma replacement_simps: "replacement None = 0xFFFD" "replacement (Some v) = v"
  by (simp_all add: replacement_def)

lemma encode_replacement_char: "encode_cp 0xFFFD = Inr [0xEF, 0xBF, 0xBD]"
  by (simp add: encode_cp_def)

lemma str_encode_Cons:
  "str_encode (c # cs) = Inr r \<longleftrightarrow> (\<exists>x y. encode_cp c = Inr x \<and> str_encode cs = Inr y \<and> r = x @ y)"
  by (auto split: sum.splits)

lemma scan_encodable: "\<exists>r. str_encode (map replacement (utf8_scan b)) = Inr r"
proof (induction b rule: utf8_scan.induct)
  case 1
  show ?case by (simp add: utf8_scan.simps)
next
  case (2 b0 bs)
  show ?case
  proof (cases "seq_need b0")
    case None
    from 2(1)[OF None] obtain r where "str_encode (map replacement (utf8_scan bs)) = Inr r" by blast
    then show ?thesis
      by (simp add: scan_invalid[OF None] replacement_simps encode_replacement_char)
  next
    case (Some need)
    define k where "k = cont_run (expected b0 need) bs"
    from 2(2)[OF Some k_def] obtain r where r: "str_encode (map replacement (utf8_scan (drop k bs))) = Inr r"
      by blast
    show ?thesis
    proof (cases "k = need")
      case True
      with k_def have kn: "cont_run (expected b0 need) bs = need" by simp
      from r True show ?thesis
        by (simp add: scan_complete[OF Some kn] replacement_simps encode_assemble[OF Some kn])
    next
      case False
      from r show ?thesis
        by (simp add: scan_broken[OF Some k_def[symmetric] False] replacement_simps encode_replacement_char)
    qed
  qed
qed

lemma reencode_valid:
  "str_encode (map replacement (utf8_scan b)) = Inr b \<Longrightarrow> None \<notin> set (utf8_scan b)"
proof (induction b rule: utf8_scan.induct)
  case 1
  show ?case by (simp add: utf8_scan.simps)
next
  case (2 b0 bs)
  show ?case
  proof (cases "seq_need b0")
    case None
    from 2(3) have "str_encode (0xFFFD # map replacement (utf8_scan bs)) = Inr (b0 # bs)"
      by (simp add: scan_invalid[OF None] replacement_simps del: str_encode.simps)
    then have "b0 = 0xEF"
      unfolding str_encode_Cons encode_replacement_char by auto
    with None show ?thesis by (simp add: seq_need_def)
  next
    case (Some need)
    define k where "k = cont_run (expected b0 need) bs"
    show ?thesis
    proof (cases "k = need")
      case True
      with k_def have kn: "cont_run (expected b0 need) bs = need" by simp
      from 2(3) have "str_encode (assemble b0 need (take need bs)
          # map replacement (utf8_scan (drop need bs))) = Inr (b0 # bs)"
        by (simp add: scan_complete[OF Some kn] replacement_simps del: str_encode.simps)
      then obtain y where y: "str_encode (map replacement (utf8_scan (drop need bs))) = Inr y"
        "take need bs @ y = bs"
        unfolding str_encode_Cons encode_assemble[OF Some kn] by auto
      from y(2) have "take need bs @ y = take need bs @ drop need bs" by simp
      then have "y = drop need bs" by (simp only: same_append_eq)
      with y(1) True have "str_encode (map replacement (utf8_scan (drop k bs))) = Inr (drop k bs)" by simp
      from 2(2)[OF Some k_def this] True show ?thesis
        by (simp add: scan_complete[OF Some kn])
    next
      case False
      from 2(3) have "str_encode (0xFFFD # map replacement (utf8_scan (drop k bs))) = Inr (b0 # bs)"
        by (simp add: scan_broken[OF Some k_def[symmetric] False] replacement_simps del: str_encode.simps)
      then obtain y where "b0 = 0xEF" "bs = 0xBF # 0xBD # y"
        unfolding str_encode_Cons encode_replacement_char by auto
      note b = this
      have "seq_need (0xEF :: byte) = Some 2" by (simp add: seq_need_def)
      with Some b(1) have n: "need = 2" by simp
      have "expected (0xEF :: byte) 2 = [second_ok 0xEF, is_cont]"
        by (simp add: expected_def numeral_2_eq_2)
      then have "cont_run (expected 0xEF 2) (0xBF # 0xBD # y) = 2"
        by (simp add: second_ok_def is_cont_def)
      with k_def b n have "k = need" by simp
      with False show ?thesis by simp
    qed
  qed
qed

lemma reencode_of_valid:
  "None \<notin> set (utf8_scan b) \<Longrightarrow> str_encode (map replacement (utf8_scan b)) = Inr b"
proof (induction b rule: utf8_scan.induct)
  case 1
  show ?case by (simp add: utf8_scan.simps)
next
  case (2 b0 bs)
  show ?case
  proof (cases "seq_need b0")
    case None
    with 2(3) show ?thesis by (simp add: scan_invalid[OF None])
  next
    case (Some need)
    define k where "k = cont_run (expected b0 need) bs"
    show ?thesis
    proof (cases "k = need")
      case True
      with k_def have kn: "cont_run (expected b0 need) bs = need" by simp
      from 2(3) have "None \<notin> set (utf8_scan (drop k bs))"
        using True by (simp add: scan_complete[OF Some kn])
      from 2(2)[OF Some k_def this] True show ?thesis
        by (simp add: scan_complete[OF Some kn] replacement_simps encode_assemble[OF Some kn])
    next
      case False
      with 2(3) show ?thesis
        by (simp add: scan_broken[OF Some k_def[symmetric] False])
    qed
  qed
qed

subsection \<open>The receiver\<close>

lemma encode_cp_scalar: "scalar c \<Longrightarrow> \<exists>x. encode_cp c = Inr x"
  by (auto simp: encode_cp_def scalar_def)

lemma encode_cp_Inr_scalar: "encode_cp c = Inr x \<Longrightarrow> scalar c"
  by (auto simp: encode_cp_def scalar_def split: if_splits)

lemma str_encode_total: "\<forall>c \<in> set s. scalar c \<Longrightarrow> \<exists>r. str_encode s = Inr r"
proof (induction s)
  case Nil show ?case by simp
next
  case (Cons c cs)
  then obtain x r where "encode_cp c = Inr x" "str_encode cs = Inr r"
    using encode_cp_scalar[of c] by auto
  then show ?case by simp
qed

lemma str_encode_scalar: "str_encode s = Inr r \<Longrightarrow> \<forall>c \<in> set s. scalar c"
proof (induction s arbitrary: r)
  case Nil show ?case by simp
next
  case (Cons c cs)
  from Cons.prems obtain x y where "encode_cp c = Inr x" "str_encode cs = Inr y"
    unfolding str_encode_Cons by blast
  with Cons.IH[of y] encode_cp_Inr_scalar[of c x] show ?case by simp
qed

lemma bytes_decode_replace: "bytes_decode Replace b = Inr (map replacement (utf8_scan b))"
  by (simp add: bytes_decode_def)

lemma decoded_scalar: "\<forall>c \<in> set (map replacement (utf8_scan b)). scalar c"
  using scan_encodable[of b] str_encode_scalar by blast

lemma u_scalar: "c \<in> set (u s) \<Longrightarrow> scalar c"
proof -
  assume "c \<in> set (u s)"
  then obtain ch where "c = of_char ch" by (auto simp: u_def)
  moreover have "(of_char ch :: nat) < 256" by simp
  then have "(of_char ch :: nat) < 0xD800" by linarith
  ultimately show ?thesis by (simp add: scalar_def)
qed

lemma strftime_scalar: "c \<in> set (strftime now) \<Longrightarrow> scalar c"
  using strftime_digits[of c now] by (simp add: scalar_def)

lemma control_fields_scalar:
  assumes "\<forall>x \<in> set m. scalar x" and "control_fields m = Inr c"
  shows "\<forall>x \<in> set (sending_app c) \<union> set (sending_facility c) \<union> set (receiving_app c)
           \<union> set (receiving_facility c) \<union> set (msg_control_id c). scalar x"
proof (cases "10 \<le> length (split_on 0x7C (hd (split_on 0x0D m)))")
  case True
  define fs where "fs = split_on 0x7C (hd (split_on 0x0D m))"
  have sub: "\<And>i. i < 10 \<Longrightarrow> set (fs ! i) \<subseteq> set m"
  proof -
    fix i :: nat assume "i < 10"
    with True have "fs ! i \<in> set fs" by (simp add: fs_def)
    then have "set (fs ! i) \<subseteq> set (hd (split_on 0x0D m))"
      unfolding fs_def by (rule split_on_subset)
    moreover have "set (hd (split_on 0x0D m)) \<subseteq> set m"
      using hd_split_on_mem split_on_subset by metis
    ultimately show "set (fs ! i) \<subseteq> set m" by blast
  qed
  from control_fields_read[OF True] assms(2)
  have "c = \<lparr>sending_app = fs ! 2, sending_facility = fs ! 3, receiving_app = fs ! 4,
              receiving_facility = fs ! 5, msg_control_id = fs ! 9\<rparr>"
    by (simp add: Let_def fs_def)
  with sub[of 2] sub[of 3] sub[of 4] sub[of 5] sub[of 9] assms(1) show ?thesis by auto
next
  case False
  then have "length (split_on 0x7C (hd (split_on 0x0D m))) < 10" by simp
  from control_fields_default[OF this] assms(2) show ?thesis
    using u_scalar by auto
qed

lemma ack_text_scalar:
  assumes "\<forall>x \<in> set (sending_app c) \<union> set (sending_facility c) \<union> set (receiving_app c)
           \<union> set (receiving_facility c) \<union> set (msg_control_id c). scalar x"
    and "\<forall>x \<in> set ts. scalar x"
  shows "\<forall>x \<in> set (ack_text ts c). scalar x"
proof -
  have "scalar 0x5C" "scalar 0x0D" by (simp_all add: scalar_def)
  with assms show ?thesis
    unfolding ack_text_def ack_header_def ack_status_def
    using u_scalar by auto
qed

lemma create_ack_total:
  assumes "\<forall>x \<in> set m. scalar x"
  shows "\<exists>ack. create_ack now m = Inr ack"
proof -
  obtain c where c: "control_fields m = Inr c" using control_fields_total by blast
  have "\<forall>x \<in> set (ack_text (strftime now) c). scalar x"
    using ack_text_scalar[OF control_fields_scalar[OF assms c]] strftime_scalar by blast
  from str_encode_total[OF this] c show ?thesis
    by (auto simp: create_ack_def bind_def)
qed

lemma process_frame_parts:
  "\<exists>m info ack. bytes_decode Replace (strip_framing frame) = Inr m
     \<and> extract_message_info m = Inr info
     \<and> create_ack (clock world (handled s)) m = Inr ack"
proof -
  let ?m = "map replacement (utf8_scan (strip_framing frame))"
  obtain info where "extract_message_info ?m = Inr info"
    using extract_message_info_total by blast
  moreover obtain ack where "create_ack (clock world (handled s)) ?m = Inr ack"
    using create_ack_total[OF decoded_scalar] by blast
  ultimately show ?thesis by (simp add: bytes_decode_replace)
qed

lemma process_frame_ok:
  assumes "bytes_decode Replace (strip_framing frame) = Inr m"
    and "extract_message_info m = Inr info"
    and "create_ack (clock world (handled s)) m = Inr ack"
    and "disk_write world (handled s) m = None"
    and "socket_send world (handled s) ack = None"
  shows "process_frame world frame s =
    (None, s\<lparr>trace := trace s @ [Received info, Saved m, Sent ack], handled := handled s + 1\<rparr>)"
  using assms by (simp add: process_frame_def save_message_def conn_send_def log_def)


lemma drain_idle: "\<not> contains MLLP_END (buffer s) \<Longrightarrow> drain world s = (None, s)"
  by (subst drain.simps) simp

lemma drain_frame:
  assumes "\<not> contains MLLP_END p" and "buffer s = encode p @ rest"
  shows "drain world s =
    (case process_frame world (encode p) (s\<lparr>buffer := rest\<rparr>) of
       (Some e, s') \<Rightarrow> (Some e, s')
     | (None, s') \<Rightarrow> drain world s')"
proof -
  have a: "contains MLLP_START (encode p @ rest)"
    by (simp add: contains_def encode_def MLLP_START_def startswith_def)
  have "find_sub MLLP_END (encode p @ rest) \<noteq> None"
    using find_end_after[OF assms(1), of rest] by (simp add: encode_def MLLP_START_def)
  then have b: "contains MLLP_END (encode p @ rest)" by (simp add: contains_def)
  show ?thesis
    by (subst drain.simps) (simp add: assms(2) a b next_frame_encode[OF assms(1)])
qed

lemma next_frame_total:
  "contains MLLP_START b \<Longrightarrow> contains MLLP_END b \<Longrightarrow> \<exists>m rest. next_frame b = Inr (m, rest)"
  by (auto simp: contains_def next_frame_def index_def Let_def)

lemma stored_append: "stored (xs @ ys) = stored xs @ stored ys"
  by (induction xs rule: stored.induct) simp_all

lemma drain_follows_decode_all:
  assumes "\<forall>k m. disk_write world k m = None" and "\<forall>k b. socket_send world k b = None"
  shows "\<exists>ps s'. decode_all (buffer s) = Inr (ps, buffer s') \<and> drain world s = (None, s')
    \<and> stored (trace s') = stored (trace s) @ map (\<lambda>p. map replacement (utf8_scan p)) ps"
  using assms
proof (induction world s rule: drain.induct)
  case (1 world s)
  show ?case
  proof (cases "contains MLLP_START (buffer s) \<and> contains MLLP_END (buffer s)")
    case False
    have "decode_all (buffer s) = Inr ([], buffer s)"
      by (subst decode_all.simps) (simp only: False if_False)
    moreover have "drain world s = (None, s)"
      by (subst drain.simps) (simp only: False if_False)
    ultimately show ?thesis
      by (intro exI[of _ "[]"] exI[of _ s]) simp
  next
    case True
    then obtain frame rest where nf: "next_frame (buffer s) = Inr (frame, rest)"
      using next_frame_total by blast
    let ?s0 = "s\<lparr>buffer := rest\<rparr>"
    obtain m info ack where parts: "bytes_decode Replace (strip_framing frame) = Inr m"
      "extract_message_info m = Inr info" "create_ack (clock world (handled ?s0)) m = Inr ack"
      using process_frame_parts[of frame world ?s0] by blast
    define s1 where "s1 = ?s0\<lparr>trace := trace ?s0 @ [Received info, Saved m, Sent ack],
      handled := handled ?s0 + 1\<rparr>"
    have pf: "process_frame world frame ?s0 = (None, s1)"
      unfolding s1_def using "1.prems" process_frame_ok[OF parts] by simp
    from "1.IH"[OF True nf refl pf[symmetric] refl "1.prems"]
    obtain ps s' where ih: "decode_all (buffer s1) = Inr (ps, buffer s')" "drain world s1 = (None, s')"
      "stored (trace s') = stored (trace s1) @ map (\<lambda>p. map replacement (utf8_scan p)) ps"
      by blast
    have b1: "buffer s1 = rest" by (simp add: s1_def)
    have m: "m = map replacement (utf8_scan (strip_framing frame))"
      using parts(1) by (simp add: bytes_decode_replace)
    have "decode_all (buffer s) = Inr (strip_framing frame # ps, buffer s')"
      using True nf ih(1) b1 by (subst decode_all.simps) simp
    moreover have "drain world s = (None, s')"
      using True nf pf ih(2) by (subst drain.simps) simp
    moreover have "stored (trace s') =
        stored (trace s) @ map (\<lambda>p. map replacement (utf8_scan p)) (strip_framing frame # ps)"
      using ih(3) m by (simp add: s1_def stored_append)
    ultimately show ?thesis by blast
  qed
qed



lemma encode_not_Nil: "encode p \<noteq> []"
  by (simp add: encode_def MLLP_START_def)

lemma no_end_Nil: "\<not> contains MLLP_END []"
  by (simp add: contains_def MLLP_END_def)

lemma create_ack_Inr:
  assumes "create_ack now m = Inr a"
  shows "\<exists>c t. control_fields m = Inr c \<and> str_encode (ack_text (strftime now) c) = Inr t
    \<and> a = encode t"
  using assms by (auto simp: create_ack_def bind_def encode_def split: sum.splits)




lemma control_fields_id:
  assumes "control_fields m = Inr c"
  shows "msg_control_id c =
    (if 10 \<le> length (split_on 0x7C (hd (split_on 0x0D m)))
     then split_on 0x7C (hd (split_on 0x0D m)) ! 9 else u ''0'')"
proof (cases "10 \<le> length (split_on 0x7C (hd (split_on 0x0D m)))")
  case True
  from control_fields_read[OF True] assms True show ?thesis by (auto simp: Let_def)
next
  case False
  then have "length (split_on 0x7C (hd (split_on 0x0D m))) < 10" by simp
  from control_fields_default[OF this] assms False show ?thesis by auto
qed

lemma control_fields_free:
  assumes "control_fields m = Inr c" and "x = 0x7C \<or> x = 0x0D"
  shows "x \<notin> set (sending_app c) \<and> x \<notin> set (sending_facility c) \<and> x \<notin> set (receiving_app c)
    \<and> x \<notin> set (receiving_facility c) \<and> x \<notin> set (msg_control_id c)"
proof (cases "10 \<le> length (split_on 0x7C (hd (split_on 0x0D m)))")
  case True
  define fs where "fs = split_on 0x7C (hd (split_on 0x0D m))"
  have free: "\<And>i. i < 10 \<Longrightarrow> x \<notin> set (fs ! i)"
  proof -
    fix i :: nat assume "i < 10"
    with True have mem: "fs ! i \<in> set fs" by (simp add: fs_def)
    then have p: "0x7C \<notin> set (fs ! i)" unfolding fs_def by (rule split_on_fields_free)
    from mem have "set (fs ! i) \<subseteq> set (hd (split_on 0x0D m))"
      unfolding fs_def by (rule split_on_subset)
    moreover have "0x0D \<notin> set (hd (split_on 0x0D m))"
      using hd_split_on_mem split_on_fields_free by metis
    ultimately have "0x0D \<notin> set (fs ! i)" by blast
    with p assms(2) show "x \<notin> set (fs ! i)" by blast
  qed
  from control_fields_read[OF True] assms(1)
  have "c = \<lparr>sending_app = fs ! 2, sending_facility = fs ! 3, receiving_app = fs ! 4,
              receiving_facility = fs ! 5, msg_control_id = fs ! 9\<rparr>"
    by (simp add: Let_def fs_def)
  with free[of 2] free[of 3] free[of 4] free[of 5] free[of 9] show ?thesis by simp
next
  case False
  then have "length (split_on 0x7C (hd (split_on 0x0D m))) < 10" by simp
  from control_fields_default[OF this] assms show ?thesis
    by (auto simp: u_def)
qed

lemma ack_shape:
  assumes "create_ack now m = Inr a"
    and "ident = (if 10 \<le> length (split_on 0x7C (hd (split_on 0x0D m)))
                  then split_on 0x7C (hd (split_on 0x0D m)) ! 9 else u ''0'')"
  shows "\<exists>h t. a = encode t
    \<and> str_encode (h @ [0x0D] @ u ''MSA|AA|'' @ ident @ u ''|Message received successfully'' @ [0x0D])
        = Inr t
    \<and> 0x0D \<notin> set h \<and> length (split_on 0x7C h) = 12 \<and> split_on 0x7C h ! 9 = ident"
proof -
  from create_ack_Inr[OF assms(1)] obtain c t where c: "control_fields m = Inr c"
    "str_encode (ack_text (strftime now) c) = Inr t" "a = encode t" by blast
  have i: "msg_control_id c = ident" using control_fields_id[OF c(1)] assms(2) by simp
  from control_fields_free[OF c(1), of "0x7C"]
  have p: "0x7C \<notin> set (sending_app c)" "0x7C \<notin> set (sending_facility c)"
    "0x7C \<notin> set (receiving_app c)" "0x7C \<notin> set (receiving_facility c)"
    "0x7C \<notin> set (msg_control_id c)" by simp_all
  from control_fields_free[OF c(1), of "0x0D"]
  have r: "0x0D \<notin> set (sending_app c)" "0x0D \<notin> set (sending_facility c)"
    "0x0D \<notin> set (receiving_app c)" "0x0D \<notin> set (receiving_facility c)"
    "0x0D \<notin> set (msg_control_id c)" by simp_all
  let ?h = "ack_header (strftime now) c"
  have "0x0D \<notin> set ?h"
    using r strftime_free(2)[of now] by (auto simp: ack_header_def u_def)
  moreover have "length (split_on 0x7C ?h) = 12" "split_on 0x7C ?h ! 9 = ident"
    using ack_header_fields[OF p strftime_free(1)] i by simp_all
  moreover have "str_encode (?h @ [0x0D] @ u ''MSA|AA|'' @ ident
      @ u ''|Message received successfully'' @ [0x0D]) = Inr t"
    using c(2) i by (simp add: ack_text_def ack_status_def)
  ultimately show ?thesis using c(3) by blast
qed

lemma process_frame_send_fails:
  assumes "bytes_decode Replace (strip_framing frame) = Inr m"
    and "extract_message_info m = Inr info"
    and "create_ack (clock world (handled s)) m = Inr ack"
    and "disk_write world (handled s) m = None"
    and "socket_send world (handled s) ack = Some e"
  shows "process_frame world frame s = (Some e, s\<lparr>trace := trace s @ [Received info, Saved m]\<rparr>)"
  using assms by (simp add: process_frame_def save_message_def conn_send_def log_def)

lemma no_start_byte: "0x0B \<notin> set p \<Longrightarrow> \<not> contains MLLP_START p"
  by (induction p) (auto simp: contains_def MLLP_START_def startswith_def)

lemma no_end_byte: "0x1C \<notin> set p \<Longrightarrow> \<not> contains MLLP_END p"
  by (induction p) (auto simp: contains_def MLLP_END_def startswith_def)

lemma scan_ascii: "\<forall>c \<in> set s. c < 0x80 \<Longrightarrow> utf8_scan (ascii s) = map Some s"
proof (induction s)
  case Nil
  show ?case by (simp add: ascii_def utf8_scan.simps)
next
  case (Cons c cs)
  then have c: "c < 0x80" by simp
  then have un: "unat (of_nat c :: byte) = c" by (simp add: unat_of_nat)
  with c have "(of_nat c :: byte) < 0x80" by (simp add: word_less_nat_alt)
  then have "seq_need (of_nat c :: byte) = Some 0" by (simp add: seq_need_def)
  then have "utf8_scan (of_nat c # ascii cs) = Some c # utf8_scan (ascii cs)"
    using un by (simp add: utf8_scan.simps expected_def assemble_def lead_bits_def)
  with Cons show ?case by (simp add: ascii_def)
qed

lemma decode_ascii: "\<forall>c \<in> set s. c < 0x80 \<Longrightarrow> bytes_decode Replace (ascii s) = Inr s"
  by (simp add: bytes_decode_replace scan_ascii replacement_def map_idI)

lemma sample_clean:
  "\<not> contains MLLP_START (ascii sample_message)" "\<not> contains MLLP_END (ascii sample_message)"
  "\<not> contains MLLP_START (ascii second_message)" "\<not> contains MLLP_END (ascii second_message)"
  by (rule no_start_byte no_end_byte,
      simp add: ascii_def sample_message_def second_message_def u_def)+

lemma sample_decode:
  "bytes_decode Replace (ascii sample_message) = Inr sample_message"
  "bytes_decode Replace (ascii second_message) = Inr second_message"
  by (rule decode_ascii, simp add: sample_message_def second_message_def u_def)+

lemma second_fields:
  "split_on 0x7C (hd (split_on 0x0D second_message)) =
     [u ''MSH'', u ''^~'' @ [0x5C] @ u ''&'', u ''LAB'', u ''HOSP'', u ''REV'', u ''INT'',
      u ''20240101000001'', [], u ''MDM^T02'', u ''MSG002'', u ''P'', u ''2.5'']"
  by (simp add: second_message_def u_def)

text \<open>
  C4. Two frames in one read. When the frames of two payloads without marker bytes arrive
  in a single read and the disk does not fail, the loop extracts the two payloads in
  order and leaves an empty buffer. Each acknowledgment is the frame of a text of two
  lines whose status line is \<^verbatim>\<open>MSA|AA|\<close>, the control ID of its own message (field 9 of
  the first line when there are ten fields, otherwise 0) and the note, and whose header
  has that control ID as field 9. When both writes to the socket succeed, the receiver
  stores and acknowledges the first message, then the second: exactly two
  acknowledgments, in this order. The first acknowledgment is written before the second
  frame is taken from the buffer: when that write fails the session ends with the frame
  of the second payload still in the buffer and nothing done for it; when the second
  write fails the first acknowledgment has been sent. A call of \<^verbatim>\<open>conn.send\<close> that
  does not raise is taken to write all of its bytes.
\<close>

theorem multi_frame_batching:
  assumes "\<not> contains MLLP_START p1" and "\<not> contains MLLP_END p1"
    and "\<not> contains MLLP_START p2" and "\<not> contains MLLP_END p2"
    and "\<forall>k m. disk_write world k m = None"
    and "bytes_decode Replace p1 = Inr m1" and "bytes_decode Replace p2 = Inr m2"
    and "id1 = (if 10 \<le> length (split_on 0x7C (hd (split_on 0x0D m1)))
                then split_on 0x7C (hd (split_on 0x0D m1)) ! 9 else u ''0'')"
    and "id2 = (if 10 \<le> length (split_on 0x7C (hd (split_on 0x0D m2)))
                then split_on 0x7C (hd (split_on 0x0D m2)) ! 9 else u ''0'')"
  shows "decode_all (encode p1 @ encode p2) = Inr ([p1, p2], [])
    \<and> (\<exists>i1 i2 a1 a2 h1 h2 t1 t2.
          create_ack (clock world 0) m1 = Inr a1 \<and> create_ack (clock world 1) m2 = Inr a2
        \<and> a1 = encode t1
        \<and> str_encode (h1 @ [0x0D] @ u ''MSA|AA|'' @ id1 @ u ''|Message received successfully''
              @ [0x0D]) = Inr t1
        \<and> 0x0D \<notin> set h1 \<and> length (split_on 0x7C h1) = 12 \<and> split_on 0x7C h1 ! 9 = id1
        \<and> a2 = encode t2
        \<and> str_encode (h2 @ [0x0D] @ u ''MSA|AA|'' @ id2 @ u ''|Message received successfully''
              @ [0x0D]) = Inr t2
        \<and> 0x0D \<notin> set h2 \<and> length (split_on 0x7C h2) = 12 \<and> split_on 0x7C h2 ! 9 = id2
        \<and> (socket_send world 0 a1 = None \<and> socket_send world 1 a2 = None \<longrightarrow>
             handle_client world [Data (encode p1 @ encode p2)] =
               (Waiting, \<lparr>buffer = [], handled = 2,
                  trace = [Received i1, Saved m1, Sent a1, Received i2, Saved m2, Sent a2]\<rparr>))
        \<and> (\<forall>e. socket_send world 0 a1 = Some e \<longrightarrow>
             handle_client world [Data (encode p1 @ encode p2)] =
               (Raised e, \<lparr>buffer = encode p2, handled = 0,
                  trace = [Received i1, Saved m1, ErrorLogged e, Closed]\<rparr>))
        \<and> (\<forall>e. socket_send world 0 a1 = None \<and> socket_send world 1 a2 = Some e \<longrightarrow>
             handle_client world [Data (encode p1 @ encode p2)] =
               (Raised e, \<lparr>buffer = [], handled = 1,
                  trace = [Received i1, Saved m1, Sent a1, Received i2, Saved m2,
                           ErrorLogged e, Closed]\<rparr>)))"
proof -
  have d: "decode_all (encode p1 @ encode p2) = Inr ([p1, p2], [])"
    using decode_all_frame[OF assms(2), of "encode p2"] decode_all_frame[OF assms(4), of "[]"]
    by (simp add: decode_all_Nil)
  let ?s0 = "\<lparr>buffer = encode p1 @ encode p2, handled = 0, trace = []\<rparr>"
  let ?t0 = "\<lparr>buffer = encode p2, handled = 0, trace = []\<rparr>"
  obtain n1 i1 a1 where one': "bytes_decode Replace (strip_framing (encode p1)) = Inr n1"
    "extract_message_info n1 = Inr i1" "create_ack (clock world (handled ?t0)) n1 = Inr a1"
    using process_frame_parts[of "encode p1" world ?t0] by blast
  from one'(1) assms(6) have "n1 = m1" by (simp add: strip_framing_encode)
  with one' have one: "bytes_decode Replace (strip_framing (encode p1)) = Inr m1"
    "extract_message_info m1 = Inr i1" "create_ack (clock world (handled ?t0)) m1 = Inr a1"
    by simp_all
  let ?s1 = "\<lparr>buffer = encode p2, handled = 1, trace = [Received i1, Saved m1, Sent a1]\<rparr>"
  let ?t1 = "\<lparr>buffer = [], handled = 1, trace = [Received i1, Saved m1, Sent a1]\<rparr>"
  obtain n2 i2 a2 where two': "bytes_decode Replace (strip_framing (encode p2)) = Inr n2"
    "extract_message_info n2 = Inr i2" "create_ack (clock world (handled ?t1)) n2 = Inr a2"
    using process_frame_parts[of "encode p2" world ?t1] by blast
  from two'(1) assms(7) have "n2 = m2" by (simp add: strip_framing_encode)
  with two' have two: "bytes_decode Replace (strip_framing (encode p2)) = Inr m2"
    "extract_message_info m2 = Inr i2" "create_ack (clock world (handled ?t1)) m2 = Inr a2"
    by simp_all
  have c1: "create_ack (clock world 0) m1 = Inr a1" using one(3) by simp
  have c2: "create_ack (clock world 1) m2 = Inr a2" using two(3) by simp
  from ack_shape[OF c1 assms(8)] obtain h1 t1 where s1: "a1 = encode t1"
    "str_encode (h1 @ [0x0D] @ u ''MSA|AA|'' @ id1 @ u ''|Message received successfully''
       @ [0x0D]) = Inr t1"
    "0x0D \<notin> set h1" "length (split_on 0x7C h1) = 12" "split_on 0x7C h1 ! 9 = id1"
    by blast
  from ack_shape[OF c2 assms(9)] obtain h2 t2 where s2: "a2 = encode t2"
    "str_encode (h2 @ [0x0D] @ u ''MSA|AA|'' @ id2 @ u ''|Message received successfully''
       @ [0x0D]) = Inr t2"
    "0x0D \<notin> set h2" "length (split_on 0x7C h2) = 12" "split_on 0x7C h2 ! 9 = id2"
    by blast
  let ?s2 = "\<lparr>buffer = [], handled = 2,
    trace = [Received i1, Saved m1, Sent a1, Received i2, Saved m2, Sent a2]\<rparr>"
  have dk: "disk_write world 0 m1 = None" "disk_write world 1 m2 = None"
    using assms(5) by simp_all
  have idle: "drain world ?s2 = (None, ?s2)"
    by (rule drain_idle) (simp add: no_end_Nil)
  have step0: "drain world ?s0 =
      (case process_frame world (encode p1) ?t0 of
         (Some e, s') \<Rightarrow> (Some e, s') | (None, s') \<Rightarrow> drain world s')"
    using drain_frame[OF assms(2), of ?s0 "encode p2" world] by simp
  have step1: "drain world ?s1 =
      (case process_frame world (encode p2) ?t1 of
         (Some e, s') \<Rightarrow> (Some e, s') | (None, s') \<Rightarrow> drain world s')"
    using drain_frame[OF assms(4), of ?s1 "[]" world] by simp
  have hc: "handle_client world [Data (encode p1 @ encode p2)] =
      finish (case drain world ?s0 of (Some e, s') \<Rightarrow> (Raised e, s') | (None, s') \<Rightarrow> (Waiting, s'))"
    by (simp add: handle_client_def encode_not_Nil split: prod.splits option.splits)
  have A: "socket_send world 0 a1 = None \<and> socket_send world 1 a2 = None \<longrightarrow>
      handle_client world [Data (encode p1 @ encode p2)] = (Waiting, ?s2)"
  proof
    assume ok: "socket_send world 0 a1 = None \<and> socket_send world 1 a2 = None"
    have p1: "process_frame world (encode p1) ?t0 = (None, ?s1)"
      using process_frame_ok[OF one] dk ok by simp
    have p2: "process_frame world (encode p2) ?t1 = (None, ?s2)"
      using process_frame_ok[OF two] dk ok by simp
    from step0 step1 p1 p2 idle have "drain world ?s0 = (None, ?s2)" by simp
    with hc show "handle_client world [Data (encode p1 @ encode p2)] = (Waiting, ?s2)"
      by (simp add: finish_def)
  qed
  have B: "\<forall>e. socket_send world 0 a1 = Some e \<longrightarrow>
      handle_client world [Data (encode p1 @ encode p2)] =
        (Raised e, \<lparr>buffer = encode p2, handled = 0,
           trace = [Received i1, Saved m1, ErrorLogged e, Closed]\<rparr>)"
  proof (intro allI impI)
    fix e assume f: "socket_send world 0 a1 = Some e"
    have "process_frame world (encode p1) ?t0 =
        (Some e, \<lparr>buffer = encode p2, handled = 0, trace = [Received i1, Saved m1]\<rparr>)"
      using process_frame_send_fails[OF one] dk f by simp
    with step0 have "drain world ?s0 =
        (Some e, \<lparr>buffer = encode p2, handled = 0, trace = [Received i1, Saved m1]\<rparr>)"
      by simp
    with hc show "handle_client world [Data (encode p1 @ encode p2)] =
        (Raised e, \<lparr>buffer = encode p2, handled = 0,
           trace = [Received i1, Saved m1, ErrorLogged e, Closed]\<rparr>)"
      by (simp add: finish_def log_def)
  qed
  have C: "\<forall>e. socket_send world 0 a1 = None \<and> socket_send world 1 a2 = Some e \<longrightarrow>
      handle_client world [Data (encode p1 @ encode p2)] =
        (Raised e, \<lparr>buffer = [], handled = 1,
           trace = [Received i1, Saved m1, Sent a1, Received i2, Saved m2,
                    ErrorLogged e, Closed]\<rparr>)"
  proof (intro allI impI)
    fix e assume f: "socket_send world 0 a1 = None \<and> socket_send world 1 a2 = Some e"
    have p1: "process_frame world (encode p1) ?t0 = (None, ?s1)"
      using process_frame_ok[OF one] dk f by simp
    have "process_frame world (encode p2) ?t1 =
        (Some e, \<lparr>buffer = [], handled = 1,
           trace = [Received i1, Saved m1, Sent a1, Received i2, Saved m2]\<rparr>)"
      using process_frame_send_fails[OF two] dk f by simp
    with step0 step1 p1 have "drain world ?s0 =
        (Some e, \<lparr>buffer = [], handled = 1,
           trace = [Received i1, Saved m1, Sent a1, Received i2, Saved m2]\<rparr>)"
      by simp
    with hc show "handle_client world [Data (encode p1 @ encode p2)] =
        (Raised e, \<lparr>buffer = [], handled = 1,
           trace = [Received i1, Saved m1, Sent a1, Received i2, Saved m2,
                    ErrorLogged e, Closed]\<rparr>)"
      by (simp add: finish_def log_def)
  qed
  have "\<exists>i1 i2 a1 a2 h1 h2 t1 t2.
          create_ack (clock world 0) m1 = Inr a1 \<and> create_ack (clock world 1) m2 = Inr a2
        \<and> a1 = encode t1
        \<and> str_encode (h1 @ [0x0D] @ u ''MSA|AA|'' @ id1 @ u ''|Message received successfully''
              @ [0x0D]) = Inr t1
        \<and> 0x0D \<notin> set h1 \<and> length (split_on 0x7C h1) = 12 \<and> split_on 0x7C h1 ! 9 = id1
        \<and> a2 = encode t2
        \<and> str_encode (h2 @ [0x0D] @ u ''MSA|AA|'' @ id2 @ u ''|Message received successfully''
              @ [0x0D]) = Inr t2
        \<and> 0x0D \<notin> set h2 \<and> length (split_on 0x7C h2) = 12 \<and> split_on 0x7C h2 ! 9 = id2
        \<and> (socket_send world 0 a1 = None \<and> socket_send world 1 a2 = None \<longrightarrow>
             handle_client world [Data (encode p1 @ encode p2)] =
               (Waiting, \<lparr>buffer = [], handled = 2,
                  trace = [Received i1, Saved m1, Sent a1, Received i2, Saved m2, Sent a2]\<rparr>))
        \<and> (\<forall>e. socket_send world 0 a1 = Some e \<longrightarrow>
             handle_client world [Data (encode p1 @ encode p2)] =
               (Raised e, \<lparr>buffer = encode p2, handled = 0,
                  trace = [Received i1, Saved m1, ErrorLogged e, Closed]\<rparr>))
        \<and> (\<forall>e. socket_send world 0 a1 = None \<and> socket_send world 1 a2 = Some e \<longrightarrow>
             handle_client world [Data (encode p1 @ encode p2)] =
               (Raised e, \<lparr>buffer = [], handled = 1,
                  trace = [Received i1, Saved m1, Sent a1, Received i2, Saved m2,
                           ErrorLogged e, Closed]\<rparr>))"
    using c1 c2 s1 s2 A B C
    by (intro exI[of _ i1] exI[of _ i2] exI[of _ a1] exI[of _ a2] exI[of _ h1] exI[of _ h2]
        exI[of _ t1] exI[of _ t2] conjI) assumption+
  with d show ?thesis by (rule conjI)
qed

theorem multi_frame_batching_witness:
  "\<not> contains MLLP_START (ascii sample_message) \<and> \<not> contains MLLP_END (ascii sample_message)
   \<and> \<not> contains MLLP_START (ascii second_message) \<and> \<not> contains MLLP_END (ascii second_message)
   \<and> (\<forall>k m. disk_write quiet_world k m = None)
   \<and> (\<forall>k m. disk_write (broken_pipe_at 0) k m = None)
   \<and> (\<forall>k m. disk_write (broken_pipe_at 1) k m = None)
   \<and> bytes_decode Replace (ascii sample_message) = Inr sample_message
   \<and> bytes_decode Replace (ascii second_message) = Inr second_message
   \<and> split_on 0x7C (hd (split_on 0x0D sample_message)) ! 9 = u ''MSG001''
   \<and> split_on 0x7C (hd (split_on 0x0D second_message)) ! 9 = u ''MSG002''
   \<and> decode_all (encode (ascii sample_message) @ encode (ascii second_message)) =
        Inr ([ascii sample_message, ascii second_message], [])
   \<and> (\<exists>i1 i2 a1 a2 h1 h2 t1 t2.
          a1 = encode t1
        \<and> str_encode (h1 @ [0x0D] @ u ''MSA|AA|'' @ u ''MSG001''
              @ u ''|Message received successfully'' @ [0x0D]) = Inr t1
        \<and> split_on 0x7C h1 ! 9 = u ''MSG001''
        \<and> a2 = encode t2
        \<and> str_encode (h2 @ [0x0D] @ u ''MSA|AA|'' @ u ''MSG002''
              @ u ''|Message received successfully'' @ [0x0D]) = Inr t2
        \<and> split_on 0x7C h2 ! 9 = u ''MSG002''
        \<and> socket_send quiet_world 0 a1 = None \<and> socket_send quiet_world 1 a2 = None
        \<and> handle_client quiet_world
             [Data (encode (ascii sample_message) @ encode (ascii second_message))] =
            (Waiting, \<lparr>buffer = [], handled = 2,
               trace = [Received i1, Saved sample_message, Sent a1,
                        Received i2, Saved second_message, Sent a2]\<rparr>))
   \<and> (\<exists>i1 a1.
          socket_send (broken_pipe_at 0) 0 a1 = Some (Exn OSError (u ''[Errno 32] Broken pipe''))
        \<and> handle_client (broken_pipe_at 0)
             [Data (encode (ascii sample_message) @ encode (ascii second_message))] =
            (Raised (Exn OSError (u ''[Errno 32] Broken pipe'')),
             \<lparr>buffer = encode (ascii second_message), handled = 0,
              trace = [Received i1, Saved sample_message,
                       ErrorLogged (Exn OSError (u ''[Errno 32] Broken pipe'')), Closed]\<rparr>))
   \<and> (\<exists>i1 i2 a1 a2.
          socket_send (broken_pipe_at 1) 0 a1 = None
        \<and> socket_send (broken_pipe_at 1) 1 a2 = Some (Exn OSError (u ''[Errno 32] Broken pipe''))
        \<and> handle_client (broken_pipe_at 1)
             [Data (encode (ascii sample_message) @ encode (ascii second_message))] =
            (Raised (Exn OSError (u ''[Errno 32] Broken pipe'')),
             \<lparr>buffer = [], handled = 1,
              trace = [Received i1, Saved sample_message, Sent a1, Received i2,
                       Saved second_message,
                       ErrorLogged (Exn OSError (u ''[Errno 32] Broken pipe'')), Closed]\<rparr>))"
proof -
  let ?E = "Exn OSError (u ''[Errno 32] Broken pipe'')"
  have q: "\<forall>k m. disk_write quiet_world k m = None" by (simp add: quiet_world_def)
  have b0: "\<forall>k m. disk_write (broken_pipe_at 0) k m = None" by (simp add: broken_pipe_at_def)
  have b1: "\<forall>k m. disk_write (broken_pipe_at 1) k m = None" by (simp add: broken_pipe_at_def)
  have f1: "split_on 0x7C (hd (split_on 0x0D sample_message)) ! 9 = u ''MSG001''"
    by (simp add: sample_fields)
  have f2: "split_on 0x7C (hd (split_on 0x0D second_message)) ! 9 = u ''MSG002''"
    by (simp add: second_fields)
  have i1: "u ''MSG001'' = (if 10 \<le> length (split_on 0x7C (hd (split_on 0x0D sample_message)))
                then split_on 0x7C (hd (split_on 0x0D sample_message)) ! 9 else u ''0'')"
    by (simp add: sample_fields)
  have i2: "u ''MSG002'' = (if 10 \<le> length (split_on 0x7C (hd (split_on 0x0D second_message)))
                then split_on 0x7C (hd (split_on 0x0D second_message)) ! 9 else u ''0'')"
    by (simp add: second_fields)
  note quiet = multi_frame_batching [OF sample_clean q sample_decode i1 i2]
  note first = multi_frame_batching [OF sample_clean b0 sample_decode i1 i2]
  note later = multi_frame_batching [OF sample_clean b1 sample_decode i1 i2]
  have d: "decode_all (encode (ascii sample_message) @ encode (ascii second_message)) =
        Inr ([ascii sample_message, ascii second_message], [])"
    using quiet by (rule conjunct1)
  have A: "\<exists>i1 i2 a1 a2 h1 h2 t1 t2.
          a1 = encode t1
        \<and> str_encode (h1 @ [0x0D] @ u ''MSA|AA|'' @ u ''MSG001''
              @ u ''|Message received successfully'' @ [0x0D]) = Inr t1
        \<and> split_on 0x7C h1 ! 9 = u ''MSG001''
        \<and> a2 = encode t2
        \<and> str_encode (h2 @ [0x0D] @ u ''MSA|AA|'' @ u ''MSG002''
              @ u ''|Message received successfully'' @ [0x0D]) = Inr t2
        \<and> split_on 0x7C h2 ! 9 = u ''MSG002''
        \<and> socket_send quiet_world 0 a1 = None \<and> socket_send quiet_world 1 a2 = None
        \<and> handle_client quiet_world
             [Data (encode (ascii sample_message) @ encode (ascii second_message))] =
            (Waiting, \<lparr>buffer = [], handled = 2,
               trace = [Received i1, Saved sample_message, Sent a1,
                        Received i2, Saved second_message, Sent a2]\<rparr>)"
  proof -
    from quiet[THEN conjunct2] obtain i1 i2 a1 a2 h1 h2 t1 t2 where
      w: "a1 = encode t1"
        "str_encode (h1 @ [0x0D] @ u ''MSA|AA|'' @ u ''MSG001''
              @ u ''|Message received successfully'' @ [0x0D]) = Inr t1"
        "split_on 0x7C h1 ! 9 = u ''MSG001''"
        "a2 = encode t2"
        "str_encode (h2 @ [0x0D] @ u ''MSA|AA|'' @ u ''MSG002''
              @ u ''|Message received successfully'' @ [0x0D]) = Inr t2"
        "split_on 0x7C h2 ! 9 = u ''MSG002''"
        "socket_send quiet_world 0 a1 = None \<and> socket_send quiet_world 1 a2 = None \<longrightarrow>
         handle_client quiet_world
             [Data (encode (ascii sample_message) @ encode (ascii second_message))] =
            (Waiting, \<lparr>buffer = [], handled = 2,
               trace = [Received i1, Saved sample_message, Sent a1,
                        Received i2, Saved second_message, Sent a2]\<rparr>)"
      by (elim exE conjE) (rule that)
    have s: "socket_send quiet_world 0 a1 = None" "socket_send quiet_world 1 a2 = None"
      by (simp_all add: quiet_world_def)
    with w(7) have "handle_client quiet_world
             [Data (encode (ascii sample_message) @ encode (ascii second_message))] =
            (Waiting, \<lparr>buffer = [], handled = 2,
               trace = [Received i1, Saved sample_message, Sent a1,
                        Received i2, Saved second_message, Sent a2]\<rparr>)"
      by simp
    with w(1-6) s show ?thesis
      by (intro exI[of _ i1] exI[of _ i2] exI[of _ a1] exI[of _ a2] exI[of _ h1] exI[of _ h2]
          exI[of _ t1] exI[of _ t2] conjI) assumption+
  qed
  have B: "\<exists>i1 a1.
          socket_send (broken_pipe_at 0) 0 a1 = Some ?E
        \<and> handle_client (broken_pipe_at 0)
             [Data (encode (ascii sample_message) @ encode (ascii second_message))] =
            (Raised ?E,
             \<lparr>buffer = encode (ascii second_message), handled = 0,
              trace = [Received i1, Saved sample_message, ErrorLogged ?E, Closed]\<rparr>)"
  proof -
    from first[THEN conjunct2] obtain i1 a1 where
      w: "\<forall>e. socket_send (broken_pipe_at 0) 0 a1 = Some e \<longrightarrow>
             handle_client (broken_pipe_at 0)
               [Data (encode (ascii sample_message) @ encode (ascii second_message))] =
               (Raised e, \<lparr>buffer = encode (ascii second_message), handled = 0,
                  trace = [Received i1, Saved sample_message, ErrorLogged e, Closed]\<rparr>)"
      by (elim exE conjE) (rule that)
    have s: "socket_send (broken_pipe_at 0) 0 a1 = Some ?E" by (simp add: broken_pipe_at_def)
    from w[rule_format, of ?E, OF s] have "handle_client (broken_pipe_at 0)
               [Data (encode (ascii sample_message) @ encode (ascii second_message))] =
               (Raised ?E, \<lparr>buffer = encode (ascii second_message), handled = 0,
                  trace = [Received i1, Saved sample_message, ErrorLogged ?E, Closed]\<rparr>)"
      .
    with s show ?thesis
      by (intro exI[of _ i1] exI[of _ a1] conjI) assumption+
  qed
  have C: "\<exists>i1 i2 a1 a2.
          socket_send (broken_pipe_at 1) 0 a1 = None
        \<and> socket_send (broken_pipe_at 1) 1 a2 = Some ?E
        \<and> handle_client (broken_pipe_at 1)
             [Data (encode (ascii sample_message) @ encode (ascii second_message))] =
            (Raised ?E,
             \<lparr>buffer = [], handled = 1,
              trace = [Received i1, Saved sample_message, Sent a1, Received i2,
                       Saved second_message, ErrorLogged ?E, Closed]\<rparr>)"
  proof -
    from later[THEN conjunct2] obtain i1 i2 a1 a2 where
      w: "\<forall>e. socket_send (broken_pipe_at 1) 0 a1 = None
               \<and> socket_send (broken_pipe_at 1) 1 a2 = Some e \<longrightarrow>
             handle_client (broken_pipe_at 1)
               [Data (encode (ascii sample_message) @ encode (ascii second_message))] =
               (Raised e, \<lparr>buffer = [], handled = 1,
                  trace = [Received i1, Saved sample_message, Sent a1, Received i2,
                           Saved second_message, ErrorLogged e, Closed]\<rparr>)"
      by (elim exE conjE) (rule that)
    have s: "socket_send (broken_pipe_at 1) 0 a1 = None"
      "socket_send (broken_pipe_at 1) 1 a2 = Some ?E" by (simp_all add: broken_pipe_at_def)
    then have c: "socket_send (broken_pipe_at 1) 0 a1 = None
               \<and> socket_send (broken_pipe_at 1) 1 a2 = Some ?E" by (rule conjI)
    from w[rule_format, of ?E, OF c] have "handle_client (broken_pipe_at 1)
               [Data (encode (ascii sample_message) @ encode (ascii second_message))] =
               (Raised ?E, \<lparr>buffer = [], handled = 1,
                  trace = [Received i1, Saved sample_message, Sent a1, Received i2,
                           Saved second_message, ErrorLogged ?E, Closed]\<rparr>)"
      .
    with s show ?thesis
      by (intro exI[of _ i1] exI[of _ i2] exI[of _ a1] exI[of _ a2] conjI) assumption+
  qed
  show ?thesis
    using sample_clean q b0 b1 sample_decode f1 f2 d A B C by (intro conjI) assumption+
qed







text \<open>
  C10. Decoding with replacement. For every frame that the loop cuts out, decoding the
  bytes between the markers never raises; the text that is stored and from which the
  acknowledgment is built is the decoded one, with U+FFFD for each malformed sequence; and
  encoding that text gives the bytes back exactly when they are valid UTF-8, so that a
  payload that is not valid UTF-8 does not reach the storage byte for byte.
\<close>

theorem lossy_total_decoding:
  "\<exists>m info ack. bytes_decode Replace (strip_framing frame) = Inr m
     \<and> extract_message_info m = Inr info
     \<and> create_ack (clock world (handled s)) m = Inr ack
     \<and> (disk_write world (handled s) m = None \<and> socket_send world (handled s) ack = None \<longrightarrow>
          process_frame world frame s =
            (None, s\<lparr>trace := trace s @ [Received info, Saved m, Sent ack],
                      handled := handled s + 1\<rparr>))
     \<and> (isl (bytes_decode Strict (strip_framing frame)) \<longleftrightarrow>
          str_encode m \<noteq> Inr (strip_framing frame))"
proof -
  obtain m info ack where parts: "bytes_decode Replace (strip_framing frame) = Inr m"
    "extract_message_info m = Inr info" "create_ack (clock world (handled s)) m = Inr ack"
    using process_frame_parts[of frame world s] by blast
  have m: "m = map replacement (utf8_scan (strip_framing frame))"
    using parts(1) by (simp add: bytes_decode_replace)
  have "isl (bytes_decode Strict (strip_framing frame)) \<longleftrightarrow> None \<in> set (utf8_scan (strip_framing frame))"
    by (simp add: bytes_decode_def Let_def)
  moreover have "None \<in> set (utf8_scan (strip_framing frame)) \<longleftrightarrow> str_encode m \<noteq> Inr (strip_framing frame)"
    using reencode_valid[of "strip_framing frame"] reencode_of_valid[of "strip_framing frame"] m
    by blast
  ultimately have "isl (bytes_decode Strict (strip_framing frame)) \<longleftrightarrow>
      str_encode m \<noteq> Inr (strip_framing frame)"
    by simp
  with parts process_frame_ok[OF parts] show ?thesis
    by (intro exI[of _ m] exI[of _ info] exI[of _ ack]) simp
qed

theorem lossy_total_decoding_witness:
  "\<exists>m info ack. bytes_decode Replace (strip_framing (encode [0xFF])) = Inr m
     \<and> extract_message_info m = Inr info
     \<and> create_ack (clock quiet_world 0) m = Inr ack
     \<and> disk_write quiet_world 0 m = None \<and> socket_send quiet_world 0 ack = None
     \<and> process_frame quiet_world (encode [0xFF]) \<lparr>buffer = [], handled = 0, trace = []\<rparr> =
            (None, \<lparr>buffer = [], handled = 1, trace = [Received info, Saved m, Sent ack]\<rparr>)
     \<and> m = [0xFFFD]
     \<and> isl (bytes_decode Strict (strip_framing (encode [0xFF])))
     \<and> str_encode m \<noteq> Inr (strip_framing (encode [0xFF]))"
proof -
  have sf: "strip_framing (encode [0xFF]) = [0xFF]"
    by (rule strip_framing_encode)
  have sc: "utf8_scan [0xFF] = [None]"
    by (simp add: utf8_scan.simps seq_need_def)
  have r: "bytes_decode Replace (strip_framing (encode [0xFF])) = Inr [0xFFFD]"
    by (simp add: sf sc bytes_decode_def replacement_def)
  have s: "isl (bytes_decode Strict (strip_framing (encode [0xFF])))"
    by (simp add: sf sc bytes_decode_def)
  from lossy_total_decoding [of "encode [0xFF]" quiet_world "\<lparr>buffer = [], handled = 0, trace = []\<rparr>"]
  obtain m info ack where w: "bytes_decode Replace (strip_framing (encode [0xFF])) = Inr m"
    "extract_message_info m = Inr info"
    "create_ack (clock quiet_world (handled \<lparr>buffer = [], handled = 0, trace = []\<rparr>)) m = Inr ack"
    "disk_write quiet_world (handled \<lparr>buffer = [], handled = 0, trace = []\<rparr>) m = None
      \<and> socket_send quiet_world (handled \<lparr>buffer = [], handled = 0, trace = []\<rparr>) ack = None \<longrightarrow>
     process_frame quiet_world (encode [0xFF]) \<lparr>buffer = [], handled = 0, trace = []\<rparr> =
       (None, \<lparr>buffer = [], handled = 0, trace = []\<rparr>
          \<lparr>trace := trace \<lparr>buffer = [], handled = 0, trace = []\<rparr> @ [Received info, Saved m, Sent ack],
           handled := handled \<lparr>buffer = [], handled = 0, trace = []\<rparr> + 1\<rparr>)"
    "isl (bytes_decode Strict (strip_framing (encode [0xFF]))) \<longleftrightarrow>
      str_encode m \<noteq> Inr (strip_framing (encode [0xFF]))"
    by blast
  have q: "disk_write quiet_world 0 m = None" "socket_send quiet_world 0 ack = None"
    by (simp_all add: quiet_world_def)
  from w(1) r have m: "m = [0xFFFD]" by simp
  show ?thesis
    using w q m s by (intro exI[of _ m] exI[of _ info] exI[of _ ack]) simp
qed

subsection \<open>The sender\<close>

lemma recv_response_count: "\<exists>n r. recv_response reads response = (n, r)"
  by (cases "recv_response reads response") blast

lemma contains_append: "contains sub xs \<Longrightarrow> contains sub (xs @ ys)"
  using find_sub_append[of sub xs _ ys] by (auto simp: contains_def)

lemma recv_response_chunks:
  assumes "\<forall>d \<in> set ds. d \<noteq> []" and "\<not> contains MLLP_END (acc @ concat ds)"
  shows "recv_response (map Data ds @ tl_reads) acc =
    (case recv_response tl_reads (acc @ concat ds) of (n, r) \<Rightarrow> (length ds + n, r))"
  using assms
proof (induction ds arbitrary: acc)
  case Nil
  show ?case by (simp split: prod.splits)
next
  case (Cons d ds)
  from Cons.prems(2) have "\<not> contains MLLP_END ((acc @ d) @ concat ds)" by simp
  moreover from this have "\<not> contains MLLP_END (acc @ d)"
    using contains_append by blast
  ultimately show ?case
    using Cons.IH[of "acc @ d"] Cons.prems(1) by (simp split: prod.splits)
qed


text \<open>
  C7, as amended. The sender hands every socket failure to its caller as a returned
  string, never as an exception. An exception raised by the connection, by the send or by
  any read, whatever was received before, gives \<^verbatim>\<open>Connection timed out\<close> for a timeout,
  \<^verbatim>\<open>Connection refused - is the server running?\<close> for a refused connection and
  \<^verbatim>\<open>Error: \<close> with the text of the error for any other, such as a reset. A peer that
  falls silent gives the timeout. A connection closed before the end marker arrived
  gives \<^verbatim>\<open>No response received\<close> when no byte came, and otherwise the bytes received,
  markers removed and decoded, like a complete response. The sender connects once and
  sends the frame at most once.
\<close>

theorem sender_outcomes:
  assumes "str_encode message = Inr payload"
    and "\<forall>d \<in> set ds. d \<noteq> []" and "\<not> contains MLLP_END (concat ds)"
    and "d \<noteq> []" and "contains MLLP_END (concat ds @ d)"
  shows "(\<exists>text. snd (send_hl7_message p message) = Inr text)
    \<and> snd (send_hl7_message \<lparr>connect_result = Some e, send_result = sr, recv_results = rs\<rparr> message)
        = Inr (if cls e = SocketTimeout then u ''Connection timed out''
               else if cls e = ConnectionRefusedError
                 then u ''Connection refused - is the server running?''
               else u ''Error: '' @ msg e)
    \<and> snd (send_hl7_message \<lparr>connect_result = None, send_result = Some e, recv_results = rs\<rparr> message)
        = Inr (if cls e = SocketTimeout then u ''Connection timed out''
               else if cls e = ConnectionRefusedError
                 then u ''Connection refused - is the server running?''
               else u ''Error: '' @ msg e)
    \<and> snd (send_hl7_message \<lparr>connect_result = None, send_result = None,
              recv_results = map Data ds @ RecvRaises e # rs\<rparr> message)
        = Inr (if cls e = SocketTimeout then u ''Connection timed out''
               else if cls e = ConnectionRefusedError
                 then u ''Connection refused - is the server running?''
               else u ''Error: '' @ msg e)
    \<and> snd (send_hl7_message \<lparr>connect_result = None, send_result = None,
              recv_results = map Data ds\<rparr> message)
        = Inr (u ''Connection timed out'')
    \<and> snd (send_hl7_message \<lparr>connect_result = None, send_result = None,
              recv_results = map Data ds @ Data [] # rs\<rparr> message)
        = (if concat ds = [] then Inr (u ''No response received'')
           else bytes_decode Replace (remove_all MLLP_END (remove_all MLLP_START (concat ds))))
    \<and> snd (send_hl7_message \<lparr>connect_result = None, send_result = None,
              recv_results = map Data ds @ Data d # rs\<rparr> message)
        = bytes_decode Replace (remove_all MLLP_END (remove_all MLLP_START (concat ds @ d)))
    \<and> (\<exists>n. fst (send_hl7_message p message) = [Connect, Close]
           \<or> fst (send_hl7_message p message) = [Connect, Send (encode payload), Close]
           \<or> fst (send_hl7_message p message) =
                [Connect, Send (encode payload)] @ replicate n Recv @ [Close])"
proof -
  have total: "\<exists>text. snd (send_hl7_message p message) = Inr text"
  proof -
    obtain n res where rr: "recv_response (recv_results p) [] = (n, res)"
      using recv_response_count by blast
    show ?thesis
      using assms(1) rr
      by (auto simp: send_hl7_message_def Let_def bytes_decode_replace split: option.splits sum.splits)
  qed
  have ops: "\<exists>n. fst (send_hl7_message p message) = [Connect, Close]
           \<or> fst (send_hl7_message p message) = [Connect, Send (encode payload), Close]
           \<or> fst (send_hl7_message p message) =
                [Connect, Send (encode payload)] @ replicate n Recv @ [Close]"
  proof -
    obtain n res where rr: "recv_response (recv_results p) [] = (n, res)"
      using recv_response_count by blast
    show ?thesis
      using assms(1) rr
      by (auto simp: send_hl7_message_def Let_def encode_def split: option.splits)
  qed
  have pre: "\<not> contains MLLP_END ([] @ concat ds)" using assms(3) by simp
  note ch = recv_response_chunks[OF assms(2) pre]
  have r1: "snd (recv_response (map Data ds @ RecvRaises e # rs) []) = Inl e"
    using ch[of "RecvRaises e # rs"] by simp
  have r2: "snd (recv_response (map Data ds) []) = Inl (Exn SocketTimeout (u ''timed out''))"
    using ch[of "[]"] by simp
  have r3: "snd (recv_response (map Data ds @ Data [] # rs) []) = Inr (concat ds)"
    using ch[of "Data [] # rs"] by simp
  have r4: "snd (recv_response (map Data ds @ Data d # rs) []) = Inr (concat ds @ d)"
    using ch[of "Data d # rs"] assms(4,5) by simp
  have nz: "concat ds @ d \<noteq> []" using assms(4) by simp
  have c1: "snd (send_hl7_message \<lparr>connect_result = None, send_result = None,
              recv_results = map Data ds @ RecvRaises e # rs\<rparr> message) = Inr (handler e)"
    using r1 assms(1) by (auto simp: send_hl7_message_def split: prod.splits)
  have c2: "snd (send_hl7_message \<lparr>connect_result = None, send_result = None,
              recv_results = map Data ds\<rparr> message) = Inr (u ''Connection timed out'')"
    using r2 assms(1) by (auto simp: send_hl7_message_def handler_def split: prod.splits)
  have c3: "snd (send_hl7_message \<lparr>connect_result = None, send_result = None,
              recv_results = map Data ds @ Data [] # rs\<rparr> message)
        = (if concat ds = [] then Inr (u ''No response received'')
           else bytes_decode Replace (remove_all MLLP_END (remove_all MLLP_START (concat ds))))"
    using r3 assms(1) by (auto simp: send_hl7_message_def split: prod.splits)
  have c4: "snd (send_hl7_message \<lparr>connect_result = None, send_result = None,
              recv_results = map Data ds @ Data d # rs\<rparr> message)
        = bytes_decode Replace (remove_all MLLP_END (remove_all MLLP_START (concat ds @ d)))"
    using r4 nz assms(1) by (auto simp: send_hl7_message_def split: prod.splits)
  have c5: "snd (send_hl7_message \<lparr>connect_result = Some e, send_result = sr, recv_results = rs\<rparr> message)
      = Inr (handler e)"
    "snd (send_hl7_message \<lparr>connect_result = None, send_result = Some e, recv_results = rs\<rparr> message)
      = Inr (handler e)"
    using assms(1) by (simp_all add: send_hl7_message_def)
  have h: "handler e = (if cls e = SocketTimeout then u ''Connection timed out''
               else if cls e = ConnectionRefusedError
                 then u ''Connection refused - is the server running?''
               else u ''Error: '' @ msg e)"
    by (simp add: handler_def)
  show ?thesis
    using total ops c1 c2 c3 c4 c5 unfolding h by (intro conjI) assumption+
qed

lemma encode_A: "str_encode (u ''A'') = Inr [0x41]"
  by (simp add: u_def encode_cp_def)

lemma decoded_A:
  "bytes_decode Replace (remove_all MLLP_END (remove_all MLLP_START [0x0B, 0x41])) = Inr (u ''A'')"
  "bytes_decode Replace (remove_all MLLP_END (remove_all MLLP_START [0x0B, 0x41, 0x1C, 0x0D]))
     = Inr (u ''A'')"
proof -
  have "remove_all MLLP_END (remove_all MLLP_START [0x0B, 0x41]) = [0x41]"
    "remove_all MLLP_END (remove_all MLLP_START [0x0B, 0x41, 0x1C, 0x0D]) = [0x41]"
    by (simp_all add: MLLP_START_def MLLP_END_def startswith_def)
  moreover have "utf8_scan [0x41] = [Some 0x41]"
    by (simp add: utf8_scan.simps seq_need_def expected_def assemble_def lead_bits_def)
  ultimately show
    "bytes_decode Replace (remove_all MLLP_END (remove_all MLLP_START [0x0B, 0x41])) = Inr (u ''A'')"
    "bytes_decode Replace (remove_all MLLP_END (remove_all MLLP_START [0x0B, 0x41, 0x1C, 0x0D]))
       = Inr (u ''A'')"
    by (simp_all add: bytes_decode_def replacement_def u_def)
qed

theorem sender_outcomes_witness:
  "str_encode (u ''A'') = Inr [0x41]
   \<and> [0x0B, 0x41] \<noteq> ([] :: bytes) \<and> \<not> contains MLLP_END (concat [[0x0B, 0x41]])
   \<and> [0x1C, 0x0D] \<noteq> ([] :: bytes) \<and> contains MLLP_END (concat [[0x0B, 0x41]] @ [0x1C, 0x0D])
   \<and> snd (send_hl7_message \<lparr>connect_result = Some (Exn SocketTimeout (u ''timed out'')),
              send_result = None, recv_results = []\<rparr> (u ''A''))
        = Inr (u ''Connection timed out'')
   \<and> snd (send_hl7_message \<lparr>connect_result = Some (Exn ConnectionRefusedError (u ''[Errno 111] Connection refused'')),
              send_result = None, recv_results = []\<rparr> (u ''A''))
        = Inr (u ''Connection refused - is the server running?'')
   \<and> snd (send_hl7_message \<lparr>connect_result = None,
              send_result = Some (Exn ConnectionResetError (u ''[Errno 104] Connection reset by peer'')),
              recv_results = []\<rparr> (u ''A''))
        = Inr (u ''Error: '' @ u ''[Errno 104] Connection reset by peer'')
   \<and> snd (send_hl7_message \<lparr>connect_result = None, send_result = None,
              recv_results = [Data [0x0B, 0x41], RecvRaises (Exn SocketTimeout (u ''timed out''))]\<rparr>
              (u ''A''))
        = Inr (u ''Connection timed out'')
   \<and> snd (send_hl7_message \<lparr>connect_result = None, send_result = None,
              recv_results = [Data [0x0B, 0x41],
                RecvRaises (Exn ConnectionResetError (u ''[Errno 104] Connection reset by peer''))]\<rparr>
              (u ''A''))
        = Inr (u ''Error: '' @ u ''[Errno 104] Connection reset by peer'')
   \<and> snd (send_hl7_message \<lparr>connect_result = None, send_result = None,
              recv_results = [Data [0x0B, 0x41]]\<rparr> (u ''A''))
        = Inr (u ''Connection timed out'')
   \<and> snd (send_hl7_message \<lparr>connect_result = None, send_result = None,
              recv_results = [Data [0x0B, 0x41], Data []]\<rparr> (u ''A''))
        = Inr (u ''A'')
   \<and> snd (send_hl7_message \<lparr>connect_result = None, send_result = None,
              recv_results = [Data [0x0B, 0x41], Data [0x1C, 0x0D]]\<rparr> (u ''A''))
        = Inr (u ''A'')"
proof -
  have h2: "\<forall>d \<in> set [[0x0B, 0x41 :: byte]]. d \<noteq> []" by simp
  have h3: "\<not> contains MLLP_END (concat [[0x0B, 0x41]])"
    by (simp add: contains_def MLLP_END_def startswith_def)
  have h4: "[0x1C, 0x0D] \<noteq> ([] :: bytes)" by simp
  have h5: "contains MLLP_END (concat [[0x0B, 0x41]] @ [0x1C, 0x0D])"
    by (simp add: contains_def MLLP_END_def startswith_def)
  let ?T = "Exn SocketTimeout (u ''timed out'')"
  let ?R = "Exn ConnectionRefusedError (u ''[Errno 111] Connection refused'')"
  let ?X = "Exn ConnectionResetError (u ''[Errno 104] Connection reset by peer'')"
  note a = sender_outcomes [OF encode_A h2 h3 h4 h5]
  have w1: "snd (send_hl7_message \<lparr>connect_result = Some ?T,
              send_result = None, recv_results = []\<rparr> (u ''A''))
        = Inr (u ''Connection timed out'')"
    using a[where e="?T" and sr=None and rs="[]",
      THEN conjunct2, THEN conjunct1] by simp
  have w2: "snd (send_hl7_message \<lparr>connect_result = Some ?R,
              send_result = None, recv_results = []\<rparr> (u ''A''))
        = Inr (u ''Connection refused - is the server running?'')"
    using a[where e="?R" and sr=None and rs="[]",
      THEN conjunct2, THEN conjunct1] by simp
  have w3: "snd (send_hl7_message \<lparr>connect_result = None, send_result = Some ?X,
              recv_results = []\<rparr> (u ''A''))
        = Inr (u ''Error: '' @ u ''[Errno 104] Connection reset by peer'')"
    using a[where e="?X" and rs="[]",
      THEN conjunct2, THEN conjunct2, THEN conjunct1] by simp
  have w4: "snd (send_hl7_message \<lparr>connect_result = None, send_result = None,
              recv_results = [Data [0x0B, 0x41], RecvRaises ?T]\<rparr> (u ''A''))
        = Inr (u ''Connection timed out'')"
    using a[where e="?T" and rs="[]",
      THEN conjunct2, THEN conjunct2, THEN conjunct2, THEN conjunct1] by simp
  have w5: "snd (send_hl7_message \<lparr>connect_result = None, send_result = None,
              recv_results = [Data [0x0B, 0x41], RecvRaises ?X]\<rparr> (u ''A''))
        = Inr (u ''Error: '' @ u ''[Errno 104] Connection reset by peer'')"
    using a[where e="?X" and rs="[]",
      THEN conjunct2, THEN conjunct2, THEN conjunct2, THEN conjunct1] by simp
  have w6: "snd (send_hl7_message \<lparr>connect_result = None, send_result = None,
              recv_results = [Data [0x0B, 0x41]]\<rparr> (u ''A''))
        = Inr (u ''Connection timed out'')"
    using a[where sr=None and rs="[]" and e="?T",
      THEN conjunct2, THEN conjunct2, THEN conjunct2, THEN conjunct2, THEN conjunct1] by simp
  have w7: "snd (send_hl7_message \<lparr>connect_result = None, send_result = None,
              recv_results = [Data [0x0B, 0x41], Data []]\<rparr> (u ''A''))
        = Inr (u ''A'')"
    using a[where rs="[]",
      THEN conjunct2, THEN conjunct2, THEN conjunct2, THEN conjunct2, THEN conjunct2, THEN conjunct1] by (simp add: decoded_A del: remove_all.simps)
  have w8: "snd (send_hl7_message \<lparr>connect_result = None, send_result = None,
              recv_results = [Data [0x0B, 0x41], Data [0x1C, 0x0D]]\<rparr> (u ''A''))
        = Inr (u ''A'')"
    using a[where rs="[]",
      THEN conjunct2, THEN conjunct2, THEN conjunct2, THEN conjunct2, THEN conjunct2, THEN conjunct2, THEN conjunct1] by (simp add: decoded_A del: remove_all.simps)
  have n: "[0x0B, 0x41] \<noteq> ([] :: bytes)" by simp
  show ?thesis
    using encode_A n h3 h4 h5 w1 w2 w3 w4 w5 w6 w7 w8 by (intro conjI) assumption+
qed

text \<open>
  C7 as stated fails: a timeout of the connection and a timeout of the first read give the
  same returned string, and a connection closed in the middle of a frame gives the bytes
  received so far as if they were the response.
\<close>

theorem sender_outcomes_counterexample:
  "snd (send_hl7_message \<lparr>connect_result = Some (Exn SocketTimeout (u ''timed out'')),
          send_result = None, recv_results = []\<rparr> (u ''A''))
     = Inr (u ''Connection timed out'')
   \<and> snd (send_hl7_message \<lparr>connect_result = None, send_result = None,
          recv_results = [RecvRaises (Exn SocketTimeout (u ''timed out''))]\<rparr> (u ''A''))
     = Inr (u ''Connection timed out'')
   \<and> snd (send_hl7_message \<lparr>connect_result = None, send_result = None,
          recv_results = [Data [0x0B, 0x41], Data []]\<rparr> (u ''A''))
     = Inr (u ''A'')"
proof -
  have "remove_all MLLP_END (remove_all MLLP_START [0x0B, 0x41]) = [0x41]"
    by (simp add: MLLP_START_def MLLP_END_def startswith_def)
  moreover have "utf8_scan [0x41] = [Some 0x41]"
    by (simp add: utf8_scan.simps seq_need_def expected_def assemble_def lead_bits_def)
  ultimately have "bytes_decode Replace (remove_all MLLP_END (remove_all MLLP_START [0x0B, 0x41])) = Inr (u ''A'')"
    by (simp add: bytes_decode_def replacement_def u_def)
  then show ?thesis
    by (simp add: send_hl7_message_def encode_A handler_def contains_def MLLP_END_def startswith_def)
qed

end
